theory Spec2Isabelle
  imports Complex_Main "HOL-Library.Multiset" "HOL-Library.Product_Lexorder"
begin

section \<open>Python floats\<close>

text \<open>
  The \<open>float\<close> values that the program copies and compares: the finite ones (a finite
  double is a real number, and an \<open>int\<close> met where a float is expected compares as its
  value), the two infinities, and NaN. The operators \<open><\<close> and \<open>==\<close> are those of Python:
  every comparison with a NaN is false.
\<close>

datatype py_float = Finite real | PosInf | NegInf | NaN

fun py_lt :: "py_float \<Rightarrow> py_float \<Rightarrow> bool" where
  "py_lt NaN y = False"
| "py_lt x NaN = False"
| "py_lt (Finite a) (Finite b) = (a < b)"
| "py_lt (Finite a) PosInf = True"
| "py_lt (Finite a) NegInf = False"
| "py_lt PosInf y = False"
| "py_lt NegInf NegInf = False"
| "py_lt NegInf y = True"

fun py_eq :: "py_float \<Rightarrow> py_float \<Rightarrow> bool" where
  "py_eq NaN y = False"
| "py_eq x NaN = False"
| "py_eq x y = (x = y)"

section \<open>Data model of draft.py\<close>

text \<open>
  The three dataclasses of the source. Isabelle has one name space for record fields, and
  \<open>id\<close> is a HOL constant, so the fields carry the prefix of their class:
  \<open>dp_\<close> for DraftPick, \<open>yp_\<close> for YahooPlayerData, \<open>pa_\<close> for PlayerAnalysis.
  Python's unbounded \<open>int\<close> is \<open>int\<close>; the fields hold values of their declared types.
\<close>

record DraftPick =
  dp_id :: string
  dp_team_name :: string
  dp_first_name :: string
  dp_last_name :: string
  dp_overall_pick :: int

record YahooPlayerData =
  yp_id :: string
  yp_position :: string
  yp_season_points :: py_float

record PlayerAnalysis =
  pa_id :: string
  pa_team_name :: string
  pa_first_name :: string
  pa_last_name :: string
  pa_position :: string
  pa_overall_pick :: int
  pa_season_points :: py_float
  pa_draft_position_rank :: int
  pa_season_end_position_rank :: int
  pa_differential :: int

section \<open>Python dictionaries\<close>

text \<open>
  A \<open>dict\<close> keeps its keys in insertion order, and \<open>sorted\<close> breaks ties by that order,
  so a dict is an association list with distinct keys. Reading a missing key raises
  KeyError; storing under a present key keeps the key's place, storing under a new key
  appends it. TypeError is what subscripting a value that is no dict raises.
\<close>

datatype error = KeyError string | TypeError

definition dict_get :: "(string \<times> 'v) list \<Rightarrow> string \<Rightarrow> error + 'v" where
  "dict_get d k = (case map_of d k of None \<Rightarrow> Inl (KeyError k) | Some v \<Rightarrow> Inr v)"

fun dict_set :: "(string \<times> 'v) list \<Rightarrow> string \<Rightarrow> 'v \<Rightarrow> (string \<times> 'v) list" where
  "dict_set [] k v = [(k, v)]"
| "dict_set ((k', v') # d) k v =
     (if k' = k then (k', v) # d else (k', v') # dict_set d k v)"

definition dict_keys :: "(string \<times> 'v) list \<Rightarrow> string list" where
  "dict_keys d = map fst d"

definition dict_values :: "(string \<times> 'v) list \<Rightarrow> 'v list" where
  "dict_values d = map snd d"

text \<open>
  \<open>collections.defaultdict\<close>, always built with a factory in the source
  (\<open>lambda: 1\<close>, \<open>list\<close>, \<open>lambda: 0\<close>): reading a missing key stores the factory's value
  under that key and returns it, so a read returns the value and the updated dictionary
  and never raises.
\<close>

record 'v defaultdict =
  dd_factory :: 'v
  dd_items :: "(string \<times> 'v) list"

definition dd_new :: "'v \<Rightarrow> 'v defaultdict" where
  "dd_new v = \<lparr>dd_factory = v, dd_items = []\<rparr>"

definition dd_getitem :: "'v defaultdict \<Rightarrow> string \<Rightarrow> 'v \<times> 'v defaultdict" where
  "dd_getitem d k =
     (case map_of (dd_items d) k of
        Some v \<Rightarrow> (v, d)
      | None \<Rightarrow> (dd_factory d, d\<lparr>dd_items := dict_set (dd_items d) k (dd_factory d)\<rparr>))"

definition dd_setitem :: "'v defaultdict \<Rightarrow> string \<Rightarrow> 'v \<Rightarrow> 'v defaultdict" where
  "dd_setitem d k v = d\<lparr>dd_items := dict_set (dd_items d) k v\<rparr>"

text \<open>\<open>d[k] += n\<close>: a read, then a store of the sum.\<close>

definition dd_iadd :: "int defaultdict \<Rightarrow> string \<Rightarrow> int \<Rightarrow> int defaultdict" where
  "dd_iadd d k n = (case dd_getitem d k of (v, d1) \<Rightarrow> dd_setitem d1 k (v + n))"

text \<open>\<open>d[k].append(x)\<close>: a read, then the list held under the key grows in place.\<close>

definition dd_append :: "'a list defaultdict \<Rightarrow> string \<Rightarrow> 'a \<Rightarrow> 'a list defaultdict" where
  "dd_append d k x = (case dd_getitem d k of (l, d1) \<Rightarrow> dd_setitem d1 k (l @ [x]))"

section \<open>\<open>sorted(..., key=..., reverse=True)\<close>\<close>

text \<open>
  Python documents \<open>sorted\<close> as a stable sort that compares keys with \<open><\<close> only, and
  \<open>reverse=True\<close> as that sort between two reversals of the list. On keys that \<open><\<close>
  orders this fixes the result. With a NaN among the keys the result is the one of the
  algorithm, so the algorithm of CPython's \<open>list.sort\<close> is followed: \<open>count_run\<close> takes the
  longest prefix that is nondecreasing, or strictly decreasing and then reversed, and
  \<open>binarysort\<close> inserts each further element at the place a binary search gives. This is
  all of \<open>list.sort\<close> for lists of fewer than 64 elements; longer lists are cut into
  several such runs that are merged, with the same result wherever the keys are ordered
  (\<open>list_sort_is_stable_sort\<close> below).
\<close>

fun run_ascending :: "py_float \<Rightarrow> py_float list \<Rightarrow> nat" where
  "run_ascending prev [] = 0"
| "run_ascending prev (k # ks) = (if py_lt k prev then 0 else Suc (run_ascending k ks))"

fun run_descending :: "py_float \<Rightarrow> py_float list \<Rightarrow> nat" where
  "run_descending prev [] = 0"
| "run_descending prev (k # ks) = (if py_lt k prev then Suc (run_descending k ks) else 0)"

fun count_run :: "py_float list \<Rightarrow> nat \<times> bool" where
  "count_run [] = (0, False)"
| "count_run [k] = (1, False)"
| "count_run (k0 # k1 # ks) =
     (if py_lt k1 k0 then (2 + run_descending k1 ks, True)
      else (2 + run_ascending k1 ks, False))"

function bisect :: "('a \<Rightarrow> py_float) \<Rightarrow> 'a \<Rightarrow> 'a list \<Rightarrow> nat \<Rightarrow> nat \<Rightarrow> nat" where
  "bisect f pivot xs l r =
     (if l < r then
        (let p = l + (r - l) div 2
         in if py_lt (f pivot) (f (xs ! p)) then bisect f pivot xs l p
            else bisect f pivot xs (p + 1) r)
      else l)"
  by pat_completeness auto
termination
  by (relation "measure (\<lambda>(f, pivot, xs, l, r). r - l)") auto

declare bisect.simps [simp del]

definition binary_insert :: "('a \<Rightarrow> py_float) \<Rightarrow> 'a list \<Rightarrow> 'a \<Rightarrow> 'a list" where
  "binary_insert f xs pivot =
     (let l = bisect f pivot xs 0 (length xs) in take l xs @ pivot # drop l xs)"

definition binarysort :: "('a \<Rightarrow> py_float) \<Rightarrow> 'a list \<Rightarrow> 'a list \<Rightarrow> 'a list" where
  "binarysort f run rest = foldl (binary_insert f) run rest"

definition list_sort :: "('a \<Rightarrow> py_float) \<Rightarrow> 'a list \<Rightarrow> 'a list" where
  "list_sort f xs =
     (case count_run (map f xs) of
        (n, descending) \<Rightarrow>
          binarysort f (if descending then rev (take n xs) else take n xs) (drop n xs))"

definition sorted_reverse :: "('a \<Rightarrow> py_float) \<Rightarrow> 'a list \<Rightarrow> 'a list" where
  "sorted_reverse f xs = rev (list_sort f (rev xs))"

section \<open>Season-end ranks: \<open>_get_player_position_season_point_ranks\<close>\<close>

definition curr_position_ranks :: "(string \<times> int) list" where
  "curr_position_ranks =
     [(''QB'', 1), (''RB'', 1), (''WR'', 1), (''TE'', 1), (''K'', 1), (''DEF'', 1)]"

definition players_sorted :: "(string \<times> YahooPlayerData) list \<Rightarrow> YahooPlayerData list" where
  "players_sorted player_data = sorted_reverse yp_season_points (dict_values player_data)"

text \<open>
  The loop over the sorted players. The right-hand side
  \<open>curr_position_ranks[player.position]\<close> is read first, so an unknown position raises
  before anything is stored.
\<close>

fun season_rank_loop ::
  "(string \<times> int) list \<Rightarrow> (string \<times> int) list \<Rightarrow> YahooPlayerData list
     \<Rightarrow> error + (string \<times> int) list" where
  "season_rank_loop player_position_ranks counters [] = Inr player_position_ranks"
| "season_rank_loop player_position_ranks counters (player # rest) =
     (case dict_get counters (yp_position player) of
        Inl e \<Rightarrow> Inl e
      | Inr r \<Rightarrow>
          season_rank_loop
            (dict_set player_position_ranks (yp_id player) r)
            (dict_set counters (yp_position player) (r + 1))
            rest)"

definition get_player_position_season_point_ranks ::
  "(string \<times> YahooPlayerData) list \<Rightarrow> error + (string \<times> int) list" where
  "get_player_position_season_point_ranks player_data =
     season_rank_loop [] curr_position_ranks (players_sorted player_data)"

section \<open>The analyzer: \<open>get_player_analysis\<close>\<close>

fun analysis_loop ::
  "(string \<times> YahooPlayerData) list \<Rightarrow> (string \<times> int) list \<Rightarrow> int defaultdict
     \<Rightarrow> DraftPick list \<Rightarrow> PlayerAnalysis list \<Rightarrow> error + PlayerAnalysis list" where
  "analysis_loop player_data ranks counters [] player_analysis_list = Inr player_analysis_list"
| "analysis_loop player_data ranks counters (pick # picks) player_analysis_list =
     (case dict_get player_data (dp_id pick) of
        Inl e \<Rightarrow> Inl e
      | Inr stats \<Rightarrow>
          (case dd_getitem counters (yp_position stats) of
             (draft_position_rank, counters1) \<Rightarrow>
               (let counters2 = dd_iadd counters1 (yp_position stats) 1 in
                case dict_get ranks (dp_id pick) of
                  Inl e \<Rightarrow> Inl e
                | Inr season_points_position_rank \<Rightarrow>
                    analysis_loop player_data ranks counters2 picks
                      (player_analysis_list @
                        [\<lparr>pa_id = dp_id pick,
                          pa_team_name = dp_team_name pick,
                          pa_first_name = dp_first_name pick,
                          pa_last_name = dp_last_name pick,
                          pa_position = yp_position stats,
                          pa_overall_pick = dp_overall_pick pick,
                          pa_season_points = yp_season_points stats,
                          pa_draft_position_rank = draft_position_rank,
                          pa_season_end_position_rank = season_points_position_rank,
                          pa_differential =
                            draft_position_rank - season_points_position_rank\<rparr>]))))"

definition get_player_analysis ::
  "DraftPick list \<Rightarrow> (string \<times> YahooPlayerData) list \<Rightarrow> error + PlayerAnalysis list" where
  "get_player_analysis draft_picks player_data =
     (case get_player_position_season_point_ranks player_data of
        Inl e \<Rightarrow> Inl e
      | Inr ranks \<Rightarrow> analysis_loop player_data ranks (dd_new 1) draft_picks [])"

section \<open>The team aggregator\<close>

fun group_loop ::
  "PlayerAnalysis list defaultdict \<Rightarrow> PlayerAnalysis list \<Rightarrow> PlayerAnalysis list defaultdict" where
  "group_loop teams [] = teams"
| "group_loop teams (player # players) =
     group_loop (dd_append teams (pa_team_name player) player) players"

text \<open>\<open>for team in teams: teams[team].sort(key=overall_pick)\<close>, a stable sort in place.\<close>

fun sort_loop ::
  "PlayerAnalysis list defaultdict \<Rightarrow> string list \<Rightarrow> PlayerAnalysis list defaultdict" where
  "sort_loop teams [] = teams"
| "sort_loop teams (team # rest) =
     sort_loop
       (case dd_getitem teams team of
          (l, teams1) \<Rightarrow> dd_setitem teams1 team (sort_key pa_overall_pick l))
       rest"

definition get_players_by_team :: "PlayerAnalysis list \<Rightarrow> PlayerAnalysis list defaultdict" where
  "get_players_by_team players =
     (let teams = group_loop (dd_new []) players
      in sort_loop teams (dict_keys (dd_items teams)))"

fun differential_loop :: "int defaultdict \<Rightarrow> PlayerAnalysis list \<Rightarrow> int defaultdict" where
  "differential_loop team_differentials [] = team_differentials"
| "differential_loop team_differentials (player # players) =
     differential_loop
       (dd_iadd team_differentials (pa_team_name player) (pa_differential player))
       players"

definition get_team_differentials :: "PlayerAnalysis list \<Rightarrow> int defaultdict" where
  "get_team_differentials players = differential_loop (dd_new 0) players"

section \<open>\<open>YahooPlayerData.to_json\<close> and \<open>from_json_string\<close>\<close>

text \<open>
  The values of the JSON types and the JSON documents, after the conversion tables of
  Python's \<open>json\<close> module. A JSON text is represented by the document it denotes:
  \<open>json.dumps\<close> writes a float with \<open>repr\<close>, which \<open>json.loads\<close> reads back to the same
  float, and writes NaN and the infinities as \<open>NaN\<close>, \<open>Infinity\<close> and \<open>-Infinity\<close>, which
  it reads back as such; a number written without fraction or exponent is an \<open>int\<close>.
\<close>

datatype py_value =
    PyNone | PyBool bool | PyInt int | PyFloat py_float | PyStr string
  | PyList "py_value list" | PyDict "(string \<times> py_value) list"

datatype json =
    JNull | JBool bool | JInt int | JFloat py_float | JString string
  | JArray "json list" | JObject "(string \<times> json) list"

fun json_dumps :: "py_value \<Rightarrow> json" where
  "json_dumps PyNone = JNull"
| "json_dumps (PyBool b) = JBool b"
| "json_dumps (PyInt n) = JInt n"
| "json_dumps (PyFloat x) = JFloat x"
| "json_dumps (PyStr s) = JString s"
| "json_dumps (PyList vs) = JArray (map json_dumps vs)"
| "json_dumps (PyDict kvs) = JObject (map (\<lambda>(k, v). (k, json_dumps v)) kvs)"

text \<open>A JSON object becomes a dict; of two members with one name the later value stays.\<close>

fun json_loads :: "json \<Rightarrow> py_value" where
  "json_loads JNull = PyNone"
| "json_loads (JBool b) = PyBool b"
| "json_loads (JInt n) = PyInt n"
| "json_loads (JFloat x) = PyFloat x"
| "json_loads (JString s) = PyStr s"
| "json_loads (JArray js) = PyList (map json_loads js)"
| "json_loads (JObject kjs) =
     PyDict (fold (\<lambda>(k, v) d. dict_set d k v) (map (\<lambda>(k, j). (k, json_loads j)) kjs) [])"

text \<open>
  \<open>json.dumps(self, default=lambda o: o.__dict__)\<close>: the object is of no JSON type, so the
  encoder calls \<open>default\<close> on it and writes what that returns, the \<open>__dict__\<close> of the
  instance: its fields by name, in the order of their declaration.
\<close>

definition instance_dict :: "YahooPlayerData \<Rightarrow> py_value" where
  "instance_dict self =
     PyDict [(''id'', PyStr (yp_id self)),
             (''position'', PyStr (yp_position self)),
             (''season_points'', PyFloat (yp_season_points self))]"

definition to_json :: "YahooPlayerData \<Rightarrow> json" where
  "to_json self = json_dumps (instance_dict self)"

text \<open>\<open>dict_data[key]\<close> on what \<open>json.loads\<close> returned.\<close>

fun py_getitem :: "py_value \<Rightarrow> string \<Rightarrow> error + py_value" where
  "py_getitem (PyDict d) k = dict_get d k"
| "py_getitem v k = Inl TypeError"

text \<open>
  The constructor stores what it is given. The record holds fields of the declared types
  only, so a call with another value than a \<open>str\<close>, a \<open>str\<close> and a number has the
  outcome \<open>Untyped\<close>: Python builds an object there, one that the record cannot hold.
\<close>

datatype 'a outcome = Raises error | Untyped | Returns 'a

fun new_YahooPlayerData :: "py_value \<Rightarrow> py_value \<Rightarrow> py_value \<Rightarrow> YahooPlayerData outcome" where
  "new_YahooPlayerData (PyStr i) (PyStr pos) (PyFloat x) =
     Returns \<lparr>yp_id = i, yp_position = pos, yp_season_points = x\<rparr>"
| "new_YahooPlayerData (PyStr i) (PyStr pos) (PyInt n) =
     Returns \<lparr>yp_id = i, yp_position = pos, yp_season_points = Finite (of_int n)\<rparr>"
| "new_YahooPlayerData i pos x = Untyped"

definition from_json_string :: "json \<Rightarrow> YahooPlayerData outcome" where
  "from_json_string data =
     (let dict_data = json_loads data in
      case py_getitem dict_data ''id'' of
        Inl e \<Rightarrow> Raises e
      | Inr i \<Rightarrow>
          (case py_getitem dict_data ''position'' of
             Inl e \<Rightarrow> Raises e
           | Inr pos \<Rightarrow>
               (case py_getitem dict_data ''season_points'' of
                  Inl e \<Rightarrow> Raises e
                | Inr x \<Rightarrow> new_YahooPlayerData i pos x)))"

text \<open>
  \<open>==\<close> of two YahooPlayerData objects, the \<open>__eq__\<close> that \<open>@dataclass\<close> generates: the
  fields are compared in order with \<open>==\<close>. (Python takes one and the same object as
  equal to itself without asking \<open>==\<close>; the float that \<open>json.loads\<close> returns is never the
  object that was written.)
\<close>

definition YahooPlayerData_eq :: "YahooPlayerData \<Rightarrow> YahooPlayerData \<Rightarrow> bool" where
  "YahooPlayerData_eq a b \<longleftrightarrow>
     yp_id a = yp_id b \<and> yp_position a = yp_position b \<and>
     py_eq (yp_season_points a) (yp_season_points b)"

section \<open>Predicates used to state the properties\<close>

text \<open>
  A stats mapping is a dictionary (its keys are distinct) that holds each player's record
  under that player's id, as \<open>_fetch_yahoo_player_data\<close> builds it and as
  \<open>read_yahoo_data\<close> reads it back.
\<close>

definition stats_mapping :: "(string \<times> YahooPlayerData) list \<Rightarrow> bool" where
  "stats_mapping player_data \<longleftrightarrow>
     distinct (dict_keys player_data) \<and> (\<forall>(k, v)\<in>set player_data. yp_id v = k)"

text \<open>No season_points of the stats is a NaN.\<close>

definition no_nan :: "(string \<times> YahooPlayerData) list \<Rightarrow> bool" where
  "no_nan player_data \<longleftrightarrow> (\<forall>v\<in>set (dict_values player_data). yp_season_points v \<noteq> NaN)"

text \<open>
  The floats other than NaN in their order, as pairs compared lexicographically; used to
  state that a list is sorted.
\<close>

definition ord_key :: "py_float \<Rightarrow> nat \<times> real" where
  "ord_key x =
     (case x of NegInf \<Rightarrow> (0, 0) | Finite r \<Rightarrow> (1, r) | PosInf \<Rightarrow> (2, 0) | NaN \<Rightarrow> (3, 0))"

text \<open>The positions that have a counter in \<open>curr_position_ranks\<close>.\<close>

definition known_position :: "string \<Rightarrow> bool" where
  "known_position pos \<longleftrightarrow> pos \<in> set (dict_keys curr_position_ranks)"

definition known_positions :: "(string \<times> YahooPlayerData) list \<Rightarrow> bool" where
  "known_positions player_data \<longleftrightarrow>
     (\<forall>v\<in>set (dict_values player_data). known_position (yp_position v))"

text \<open>Every drafted id is a key of the stats mapping.\<close>

definition covers :: "(string \<times> YahooPlayerData) list \<Rightarrow> DraftPick list \<Rightarrow> bool" where
  "covers player_data draft_picks \<longleftrightarrow>
     (\<forall>pick\<in>set draft_picks. dp_id pick \<in> set (dict_keys player_data))"

text \<open>The position at which a pick was drafted: the one its stats record gives.\<close>

definition pick_position :: "(string \<times> YahooPlayerData) list \<Rightarrow> DraftPick \<Rightarrow> string option" where
  "pick_position player_data pick =
     (case dict_get player_data (dp_id pick) of
        Inl e \<Rightarrow> None
      | Inr stats \<Rightarrow> Some (yp_position stats))"

text \<open>The value a read of a defaultdict returns.\<close>

definition dd_peek :: "'v defaultdict \<Rightarrow> string \<Rightarrow> 'v" where
  "dd_peek d k = fst (dd_getitem d k)"

text \<open>
  What one PlayerAnalysis owes to its pick, to the stats and to the season-end ranks.
\<close>

definition derived ::
  "(string \<times> YahooPlayerData) list \<Rightarrow> (string \<times> int) list \<Rightarrow> DraftPick \<Rightarrow> PlayerAnalysis
     \<Rightarrow> bool" where
  "derived player_data ranks pick a \<longleftrightarrow>
     pa_id a = dp_id pick \<and> pa_team_name a = dp_team_name pick \<and>
     pa_first_name a = dp_first_name pick \<and> pa_last_name a = dp_last_name pick \<and>
     pa_overall_pick a = dp_overall_pick pick \<and>
     (case dict_get player_data (dp_id pick) of
        Inl e \<Rightarrow> False
      | Inr stats \<Rightarrow>
          pa_position a = yp_position stats \<and> pa_season_points a = yp_season_points stats) \<and>
     dict_get ranks (dp_id pick) = Inr (pa_season_end_position_rank a) \<and>
     pa_differential a = pa_draft_position_rank a - pa_season_end_position_rank a"

section \<open>Concrete inputs\<close>

text \<open>
  Three picks by two teams; the stats are those of the second example of the spec
  (the quarterback drafted first scores less), with a running back added.
\<close>

definition example_stats :: "(string \<times> YahooPlayerData) list" where
  "example_stats =
     [(''1'', \<lparr>yp_id = ''1'', yp_position = ''QB'', yp_season_points = Finite 100\<rparr>),
      (''2'', \<lparr>yp_id = ''2'', yp_position = ''QB'', yp_season_points = Finite 400\<rparr>),
      (''3'', \<lparr>yp_id = ''3'', yp_position = ''RB'', yp_season_points = Finite 50\<rparr>)]"

definition example_draft :: "DraftPick list" where
  "example_draft =
     [\<lparr>dp_id = ''1'', dp_team_name = ''A'', dp_first_name = ''Ann'', dp_last_name = ''Ames'',
       dp_overall_pick = 1\<rparr>,
      \<lparr>dp_id = ''2'', dp_team_name = ''B'', dp_first_name = ''Bob'', dp_last_name = ''Bell'',
       dp_overall_pick = 2\<rparr>,
      \<lparr>dp_id = ''3'', dp_team_name = ''A'', dp_first_name = ''Cy'', dp_last_name = ''Cole'',
       dp_overall_pick = 3\<rparr>]"

text \<open>
  Yahoo also reports positions of individual defensive players (LB, DB), for which
  \<open>curr_position_ranks\<close> has no counter.
\<close>

definition lb_stats :: "(string \<times> YahooPlayerData) list" where
  "lb_stats = [(''9'', \<lparr>yp_id = ''9'', yp_position = ''LB'', yp_season_points = Finite 120\<rparr>)]"

definition lb_draft :: "DraftPick list" where
  "lb_draft =
     [\<lparr>dp_id = ''9'', dp_team_name = ''A'', dp_first_name = ''Lee'', dp_last_name = ''Long'',
       dp_overall_pick = 1\<rparr>]"

definition db_stats :: "(string \<times> YahooPlayerData) list" where
  "db_stats =
     [(''1'', \<lparr>yp_id = ''1'', yp_position = ''QB'', yp_season_points = Finite 300\<rparr>),
      (''2'', \<lparr>yp_id = ''2'', yp_position = ''DB'', yp_season_points = Finite 80\<rparr>)]"

definition db_draft :: "DraftPick list" where
  "db_draft =
     [\<lparr>dp_id = ''1'', dp_team_name = ''A'', dp_first_name = ''Ann'', dp_last_name = ''Ames'',
       dp_overall_pick = 1\<rparr>,
      \<lparr>dp_id = ''2'', dp_team_name = ''B'', dp_first_name = ''Dan'', dp_last_name = ''Dale'',
       dp_overall_pick = 2\<rparr>]"

text \<open>A draft with a pick (id 4) that the example stats do not hold.\<close>

definition uncovered_draft :: "DraftPick list" where
  "uncovered_draft =
     [\<lparr>dp_id = ''1'', dp_team_name = ''A'', dp_first_name = ''Ann'', dp_last_name = ''Ames'',
       dp_overall_pick = 1\<rparr>,
      \<lparr>dp_id = ''4'', dp_team_name = ''B'', dp_first_name = ''Eve'', dp_last_name = ''Elk'',
       dp_overall_pick = 2\<rparr>]"

text \<open>The analysis of the example draft, as \<open>get_player_analysis\<close> returns it.\<close>

definition example_players :: "PlayerAnalysis list" where
  "example_players =
     [\<lparr>pa_id = ''1'', pa_team_name = ''A'', pa_first_name = ''Ann'', pa_last_name = ''Ames'',
       pa_position = ''QB'', pa_overall_pick = 1, pa_season_points = Finite 100,
       pa_draft_position_rank = 1, pa_season_end_position_rank = 2, pa_differential = - 1\<rparr>,
      \<lparr>pa_id = ''2'', pa_team_name = ''B'', pa_first_name = ''Bob'', pa_last_name = ''Bell'',
       pa_position = ''QB'', pa_overall_pick = 2, pa_season_points = Finite 400,
       pa_draft_position_rank = 2, pa_season_end_position_rank = 1, pa_differential = 1\<rparr>,
      \<lparr>pa_id = ''3'', pa_team_name = ''A'', pa_first_name = ''Cy'', pa_last_name = ''Cole'',
       pa_position = ''RB'', pa_overall_pick = 3, pa_season_points = Finite 50,
       pa_draft_position_rank = 1, pa_season_end_position_rank = 1, pa_differential = 0\<rparr>]"

text \<open>Three quarterbacks, the second with a NaN for season_points.\<close>

definition nan_stats :: "(string \<times> YahooPlayerData) list" where
  "nan_stats =
     [(''1'', \<lparr>yp_id = ''1'', yp_position = ''QB'', yp_season_points = Finite 1\<rparr>),
      (''2'', \<lparr>yp_id = ''2'', yp_position = ''QB'', yp_season_points = NaN\<rparr>),
      (''3'', \<lparr>yp_id = ''3'', yp_position = ''QB'', yp_season_points = Finite 2\<rparr>)]"

definition example_player :: YahooPlayerData where
  "example_player = \<lparr>yp_id = ''1'', yp_position = ''QB'', yp_season_points = Finite 100\<rparr>"

definition nan_player :: YahooPlayerData where
  "nan_player = \<lparr>yp_id = ''2'', yp_position = ''QB'', yp_season_points = NaN\<rparr>"

section \<open>The sort: a permutation, and the stable sort where the keys are ordered\<close>

lemma py_lt_ord: "x \<noteq> NaN \<Longrightarrow> y \<noteq> NaN \<Longrightarrow> py_lt x y \<longleftrightarrow> ord_key x < ord_key y"
  by (cases x; cases y) (simp_all add: ord_key_def)

lemma mset_binary_insert: "mset (binary_insert f xs x) = add_mset x (mset xs)"
proof -
  have "mset (take l xs @ x # drop l xs) = add_mset x (mset xs)" for l
    by (metis append_take_drop_id mset.simps(2) mset_append union_mset_add_mset_right)
  then show ?thesis by (simp add: binary_insert_def Let_def)
qed

lemma mset_binarysort: "mset (binarysort f run rest) = mset run + mset rest"
  unfolding binarysort_def
  by (induction rest arbitrary: run) (simp_all add: mset_binary_insert)

lemma mset_list_sort: "mset (list_sort f xs) = mset xs"
proof -
  have "mset (take n xs) + mset (drop n xs) = mset xs" for n
    by (metis append_take_drop_id mset_append)
  then show ?thesis
    by (simp add: list_sort_def mset_binarysort split: prod.splits)
qed

lemma mset_sorted_reverse: "mset (sorted_reverse f xs) = mset xs"
  by (simp add: sorted_reverse_def mset_list_sort)

lemma set_sorted_reverse: "set (sorted_reverse f xs) = set xs"
  by (metis mset_sorted_reverse set_mset_mset)

lemma run_ascending_le: "run_ascending prev ks \<le> length ks"
  by (induction ks arbitrary: prev) auto

lemma run_descending_le: "run_descending prev ks \<le> length ks"
  by (induction ks arbitrary: prev) auto

lemma count_run_le: "fst (count_run ks) \<le> length ks"
  by (cases ks rule: count_run.cases) (simp_all add: run_ascending_le run_descending_le)

lemma run_ascending_sorted:
  "\<forall>k\<in>set (prev # ks). k \<noteq> NaN
     \<Longrightarrow> sorted (map ord_key (prev # take (run_ascending prev ks) ks))"
proof (induction ks arbitrary: prev)
  case Nil
  then show ?case by simp
next
  case (Cons k ks)
  show ?case
  proof (cases "py_lt k prev")
    case True
    then show ?thesis by simp
  next
    case False
    with Cons.prems have "ord_key prev \<le> ord_key k"
      by (simp add: py_lt_ord not_less)
    moreover from Cons.prems have "sorted (map ord_key (k # take (run_ascending k ks) ks))"
      by (intro Cons.IH) simp
    ultimately show ?thesis using False by (auto intro: order_trans)
  qed
qed

lemma run_descending_sorted:
  "\<forall>k\<in>set (prev # ks). k \<noteq> NaN
     \<Longrightarrow> sorted_wrt (\<lambda>a b. b \<le> a) (map ord_key (prev # take (run_descending prev ks) ks))"
proof (induction ks arbitrary: prev)
  case Nil
  then show ?case by simp
next
  case (Cons k ks)
  show ?case
  proof (cases "py_lt k prev")
    case False
    then show ?thesis by simp
  next
    case True
    with Cons.prems have "ord_key k \<le> ord_key prev"
      by (simp add: py_lt_ord)
    moreover from Cons.prems
    have "sorted_wrt (\<lambda>a b. b \<le> a) (map ord_key (k # take (run_descending k ks) ks))"
      by (intro Cons.IH) simp
    ultimately show ?thesis using True by (auto intro: order_trans)
  qed
qed

lemma count_run_sorted:
  assumes "\<forall>x\<in>set xs. f x \<noteq> NaN" and "count_run (map f xs) = (n, descending)"
  shows "sorted (map (\<lambda>a. ord_key (f a)) (if descending then rev (take n xs) else take n xs))"
proof (cases xs)
  case Nil
  with assms(2) show ?thesis by auto
next
  case (Cons x0 xs')
  note c0 = Cons
  show ?thesis
  proof (cases xs')
    case Nil
    with c0 assms(2) show ?thesis by auto
  next
    case (Cons x1 rest)
    have nn: "\<forall>k\<in>set (f x1 # map f rest). k \<noteq> NaN"
      using assms(1) c0 Cons by auto
    have x0: "f x0 \<noteq> NaN" and x1: "f x1 \<noteq> NaN" using assms(1) c0 Cons by auto
    show ?thesis
    proof (cases "py_lt (f x1) (f x0)")
      case True
      with assms(2) c0 Cons have n: "n = 2 + run_descending (f x1) (map f rest)"
        and d: "descending" by auto
      from run_descending_sorted [OF nn]
      have "sorted_wrt (\<lambda>a b. b \<le> a)
              (map ord_key (f x1 # take (run_descending (f x1) (map f rest)) (map f rest)))" .
      moreover have "ord_key (f x1) \<le> ord_key (f x0)"
        using True x0 x1 by (simp add: py_lt_ord)
      ultimately have "sorted_wrt (\<lambda>a b. b \<le> a) (map (\<lambda>a. ord_key (f a)) (take n xs))"
        unfolding n c0 Cons
        by (auto simp add: take_map comp_def)
      then have "sorted (map (\<lambda>a. ord_key (f a)) (rev (take n xs)))"
        unfolding rev_map [symmetric] sorted_wrt_rev .
      with d show ?thesis by simp
    next
      case False
      with assms(2) c0 Cons have n: "n = 2 + run_ascending (f x1) (map f rest)"
        and d: "\<not> descending" by auto
      from run_ascending_sorted [OF nn]
      have "sorted (map ord_key (f x1 # take (run_ascending (f x1) (map f rest)) (map f rest)))" .
      moreover have "ord_key (f x0) \<le> ord_key (f x1)"
        using False x0 x1 by (simp add: py_lt_ord not_less)
      ultimately have "sorted (map (\<lambda>a. ord_key (f a)) (take n xs))"
        unfolding n c0 Cons
        by (auto simp add: take_map comp_def)
      with d show ?thesis by simp
    qed
  qed
qed

lemma bisect_spec:
  "sorted (map (\<lambda>a. ord_key (f a)) xs) \<Longrightarrow> \<forall>y\<in>set xs. f y \<noteq> NaN \<Longrightarrow> f x \<noteq> NaN
     \<Longrightarrow> l \<le> r \<Longrightarrow> r \<le> length xs
     \<Longrightarrow> \<forall>i<l. ord_key (f (xs ! i)) \<le> ord_key (f x)
     \<Longrightarrow> \<forall>i. r \<le> i \<and> i < length xs \<longrightarrow> ord_key (f x) < ord_key (f (xs ! i))
     \<Longrightarrow> bisect f x xs l r \<le> length xs \<and>
         (\<forall>i<bisect f x xs l r. ord_key (f (xs ! i)) \<le> ord_key (f x)) \<and>
         (\<forall>i. bisect f x xs l r \<le> i \<and> i < length xs \<longrightarrow> ord_key (f x) < ord_key (f (xs ! i)))"
proof (induction f x xs l r rule: bisect.induct)
  case (1 f pivot xs l r)
  show ?case
  proof (cases "l < r")
    case False
    then have "bisect f pivot xs l r = l" by (subst bisect.simps) simp
    moreover from False "1.prems"(4) have "l = r" by simp
    ultimately show ?thesis using "1.prems" by simp
  next
    case True
    define p where "p = l + (r - l) div 2"
    from True have p: "l \<le> p" "p < r" by (auto simp: p_def)
    with "1.prems" have plen: "p < length xs" by simp
    then have pn: "f (xs ! p) \<noteq> NaN" using "1.prems"(2) by simp
    have srt: "i \<le> j \<Longrightarrow> j < length xs \<Longrightarrow> ord_key (f (xs ! i)) \<le> ord_key (f (xs ! j))" for i j
      using sorted_nth_mono [OF "1.prems"(1), of i j] by simp
    show ?thesis
    proof (cases "py_lt (f pivot) (f (xs ! p))")
      case lt: True
      then have "ord_key (f pivot) < ord_key (f (xs ! p))"
        using pn "1.prems"(3) by (simp add: py_lt_ord)
      then have up: "\<forall>i. p \<le> i \<and> i < length xs \<longrightarrow> ord_key (f pivot) < ord_key (f (xs ! i))"
        using srt by (meson less_le_trans)
      have "bisect f pivot xs l r = bisect f pivot xs l p"
        using True lt by (simp add: bisect.simps [of f pivot xs l r] p_def Let_def)
      moreover have "bisect f pivot xs l p \<le> length xs \<and>
         (\<forall>i<bisect f pivot xs l p. ord_key (f (xs ! i)) \<le> ord_key (f pivot)) \<and>
         (\<forall>i. bisect f pivot xs l p \<le> i \<and> i < length xs \<longrightarrow> ord_key (f pivot) < ord_key (f (xs ! i)))"
        using "1.IH"(1) [OF True p_def lt "1.prems"(1,2,3) p(1) _ "1.prems"(6) up] plen by simp
      ultimately show ?thesis by simp
    next
      case ge: False
      then have "ord_key (f (xs ! p)) \<le> ord_key (f pivot)"
        using pn "1.prems"(3) by (simp add: py_lt_ord not_less)
      then have lo: "\<forall>i<p + 1. ord_key (f (xs ! i)) \<le> ord_key (f pivot)"
        using srt plen by (metis Suc_eq_plus1 less_Suc_eq_le order_trans)
      have "bisect f pivot xs l r = bisect f pivot xs (p + 1) r"
        using True ge by (simp add: bisect.simps [of f pivot xs l r] p_def Let_def)
      moreover have "bisect f pivot xs (p + 1) r \<le> length xs \<and>
         (\<forall>i<bisect f pivot xs (p + 1) r. ord_key (f (xs ! i)) \<le> ord_key (f pivot)) \<and>
         (\<forall>i. bisect f pivot xs (p + 1) r \<le> i \<and> i < length xs \<longrightarrow> ord_key (f pivot) < ord_key (f (xs ! i)))"
        using "1.IH"(2) [OF True p_def ge "1.prems"(1,2,3) _ "1.prems"(5) lo "1.prems"(7)] p by simp
      ultimately show ?thesis by simp
    qed
  qed
qed

lemma binary_insert_sorted:
  assumes srt: "sorted (map (\<lambda>a. ord_key (f a)) xs)"
    and nn: "\<forall>y\<in>set xs. f y \<noteq> NaN" and x: "f x \<noteq> NaN"
  shows "sorted (map (\<lambda>a. ord_key (f a)) (binary_insert f xs x))"
proof -
  define k where "k = bisect f x xs 0 (length xs)"
  have "k \<le> length xs \<and>
         (\<forall>i<k. ord_key (f (xs ! i)) \<le> ord_key (f x)) \<and>
         (\<forall>i. k \<le> i \<and> i < length xs \<longrightarrow> ord_key (f x) < ord_key (f (xs ! i)))"
    unfolding k_def by (rule bisect_spec [OF srt nn x]) auto
  then have k: "k \<le> length xs"
    and lo: "\<And>i. i < k \<Longrightarrow> ord_key (f (xs ! i)) \<le> ord_key (f x)"
    and hi: "\<And>i. k \<le> i \<Longrightarrow> i < length xs \<Longrightarrow> ord_key (f x) < ord_key (f (xs ! i))"
    by blast+
  have before: "ord_key (f a) \<le> ord_key (f x)" if "a \<in> set (take k xs)" for a
  proof -
    from that obtain i where "i < k" "i < length xs" "a = xs ! i"
      by (auto simp: in_set_conv_nth)
    with lo show ?thesis by simp
  qed
  have after: "ord_key (f x) < ord_key (f b)" if "b \<in> set (drop k xs)" for b
  proof -
    from that obtain i where i: "i < length (drop k xs)" "drop k xs ! i = b"
      by (auto simp: in_set_conv_nth)
    with k have "k + i < length xs" "b = xs ! (k + i)" by simp_all
    with hi [of "k + i"] show ?thesis by simp
  qed
  from srt have "sorted (map (\<lambda>a. ord_key (f a)) (take k xs @ drop k xs))" by simp
  then have "sorted (map (\<lambda>a. ord_key (f a)) (take k xs))" "sorted (map (\<lambda>a. ord_key (f a)) (drop k xs))"
    unfolding map_append sorted_append by simp_all
  moreover have "ord_key (f a) \<le> ord_key (f b)"
    if "a \<in> set (take k xs)" "b \<in> set (drop k xs)" for a b
    using before [OF that(1)] after [OF that(2)] by (meson order_trans less_imp_le)
  ultimately have "sorted (map (\<lambda>a. ord_key (f a)) (take k xs @ x # drop k xs))"
    using before after unfolding map_append sorted_append by (auto intro: less_imp_le)
  then show ?thesis by (simp add: binary_insert_def k_def Let_def)
qed

lemma binarysort_sorted:
  "sorted (map (\<lambda>a. ord_key (f a)) run) \<Longrightarrow> \<forall>y\<in>set (run @ rest). f y \<noteq> NaN
     \<Longrightarrow> sorted (map (\<lambda>a. ord_key (f a)) (binarysort f run rest))"
  unfolding binarysort_def
proof (induction rest arbitrary: run)
  case Nil
  then show ?case by simp
next
  case (Cons x rest)
  from Cons.prems have "sorted (map (\<lambda>a. ord_key (f a)) (binary_insert f run x))"
    by (intro binary_insert_sorted) auto
  moreover have "set (binary_insert f run x) = insert x (set run)"
    by (metis mset_binary_insert set_mset_add_mset_insert set_mset_mset)
  ultimately show ?case using Cons.prems by (simp add: Cons.IH)
qed

lemma list_sort_sorted:
  assumes "\<forall>x\<in>set xs. f x \<noteq> NaN"
  shows "sorted (map (\<lambda>a. ord_key (f a)) (list_sort f xs))"
proof -
  obtain n descending where c: "count_run (map f xs) = (n, descending)"
    by (cases "count_run (map f xs)")
  let ?run = "if descending then rev (take n xs) else take n xs"
  have "sorted (map (\<lambda>a. ord_key (f a)) ?run)"
    by (rule count_run_sorted [OF assms c])
  moreover have "\<forall>y\<in>set (?run @ drop n xs). f y \<noteq> NaN"
    using assms by (auto dest: in_set_takeD in_set_dropD)
  ultimately have "sorted (map (\<lambda>a. ord_key (f a)) (binarysort f ?run (drop n xs)))"
    by (rule binarysort_sorted)
  then show ?thesis by (simp add: list_sort_def c)
qed

lemma sorted_reverse_descending:
  assumes "\<forall>x\<in>set xs. f x \<noteq> NaN"
  shows "sorted_wrt (\<lambda>a b. ord_key (f b) \<le> ord_key (f a)) (sorted_reverse f xs)"
proof -
  from assms have "sorted (map (\<lambda>a. ord_key (f a)) (list_sort f (rev xs)))"
    by (intro list_sort_sorted) simp
  then have "sorted_wrt (\<lambda>a b. ord_key (f a) \<le> ord_key (f b)) (list_sort f (rev xs))"
    by (simp add: sorted_map)
  then show ?thesis by (simp add: sorted_reverse_def sorted_wrt_rev)
qed

text \<open>Elements with equal keys keep their order.\<close>

lemma binary_insert_stable:
  assumes srt: "sorted (map (\<lambda>a. ord_key (f a)) xs)"
    and nn: "\<forall>y\<in>set xs. f y \<noteq> NaN" and x: "f x \<noteq> NaN"
  shows "filter (\<lambda>y. c = ord_key (f y)) (binary_insert f xs x)
       = filter (\<lambda>y. c = ord_key (f y)) xs @ (if c = ord_key (f x) then [x] else [])"
proof -
  define k where "k = bisect f x xs 0 (length xs)"
  have "k \<le> length xs \<and>
         (\<forall>i<k. ord_key (f (xs ! i)) \<le> ord_key (f x)) \<and>
         (\<forall>i. k \<le> i \<and> i < length xs \<longrightarrow> ord_key (f x) < ord_key (f (xs ! i)))"
    unfolding k_def by (rule bisect_spec [OF srt nn x]) auto
  then have k: "k \<le> length xs"
    and hi: "\<And>i. k \<le> i \<Longrightarrow> i < length xs \<Longrightarrow> ord_key (f x) < ord_key (f (xs ! i))"
    by blast+
  have after: "ord_key (f x) < ord_key (f b)" if "b \<in> set (drop k xs)" for b
  proof -
    from that obtain i where i: "i < length (drop k xs)" "drop k xs ! i = b"
      by (auto simp: in_set_conv_nth)
    with k have "k + i < length xs" "b = xs ! (k + i)" by simp_all
    with hi [of "k + i"] show ?thesis by simp
  qed
  define P where "P = (\<lambda>y. c = ord_key (f y))"
  have split: "filter P xs = filter P (take k xs) @ filter P (drop k xs)"
    by (metis append_take_drop_id filter_append)
  have ins: "filter P (binary_insert f xs x)
      = filter P (take k xs) @ (if P x then [x] else []) @ filter P (drop k xs)"
    by (simp add: binary_insert_def Let_def k_def)
  have "filter P (binary_insert f xs x) = filter P xs @ (if P x then [x] else [])"
  proof (cases "P x")
    case True
    have "\<not> P b" if "b \<in> set (drop k xs)" for b
      using after [OF that] True by (simp add: P_def)
    then have "filter P (drop k xs) = []"
      by (simp add: filter_empty_conv)
    with True show ?thesis by (simp add: ins split)
  next
    case False
    then show ?thesis by (simp add: ins split)
  qed
  then show ?thesis by (simp add: P_def)
qed

lemma binarysort_stable:
  "sorted (map (\<lambda>a. ord_key (f a)) run) \<Longrightarrow> \<forall>y\<in>set (run @ rest). f y \<noteq> NaN
     \<Longrightarrow> filter (\<lambda>y. c = ord_key (f y)) (binarysort f run rest)
         = filter (\<lambda>y. c = ord_key (f y)) run @ filter (\<lambda>y. c = ord_key (f y)) rest"
  unfolding binarysort_def
proof (induction rest arbitrary: run)
  case Nil
  then show ?case by simp
next
  case (Cons x rest)
  from Cons.prems have s: "sorted (map (\<lambda>a. ord_key (f a)) (binary_insert f run x))"
    by (intro binary_insert_sorted) auto
  have "set (binary_insert f run x) = insert x (set run)"
    by (metis mset_binary_insert set_mset_add_mset_insert set_mset_mset)
  with Cons.prems have n: "\<forall>y\<in>set (binary_insert f run x @ rest). f y \<noteq> NaN" by auto
  from Cons.prems have "filter (\<lambda>y. c = ord_key (f y)) (binary_insert f run x)
       = filter (\<lambda>y. c = ord_key (f y)) run @ (if c = ord_key (f x) then [x] else [])"
    by (intro binary_insert_stable) auto
  with Cons.IH [OF s n] show ?case by simp
qed

lemma strictly_descending_filter_rev:
  "sorted_wrt (\<lambda>a b. g b < (g a :: 'k :: linorder)) ys
     \<Longrightarrow> filter (\<lambda>y. c = g y) (rev ys) = filter (\<lambda>y. c = g y) ys"
proof (induction ys)
  case Nil
  then show ?case by simp
next
  case (Cons y ys)
  show ?case
  proof (cases "c = g y")
    case True
    with Cons.prems have "filter (\<lambda>y. c = g y) ys = []"
      by (auto simp: filter_empty_conv)
    with Cons show ?thesis using True by simp
  next
    case False
    with Cons show ?thesis by simp
  qed
qed

lemma run_descending_strict:
  "\<forall>k\<in>set (prev # ks). k \<noteq> NaN
     \<Longrightarrow> sorted_wrt (\<lambda>a b. b < a) (map ord_key (prev # take (run_descending prev ks) ks))"
proof (induction ks arbitrary: prev)
  case Nil
  then show ?case by simp
next
  case (Cons k ks)
  show ?case
  proof (cases "py_lt k prev")
    case False
    then show ?thesis by simp
  next
    case True
    with Cons.prems have "ord_key k < ord_key prev"
      by (simp add: py_lt_ord)
    moreover from Cons.prems
    have "sorted_wrt (\<lambda>a b. b < a) (map ord_key (k # take (run_descending k ks) ks))"
      by (intro Cons.IH) simp
    ultimately show ?thesis using True by (auto intro: less_trans)
  qed
qed

lemma count_run_stable:
  assumes "\<forall>x\<in>set xs. f x \<noteq> NaN" and "count_run (map f xs) = (n, descending)"
  shows "filter (\<lambda>y. c = ord_key (f y)) (if descending then rev (take n xs) else take n xs)
       = filter (\<lambda>y. c = ord_key (f y)) (take n xs)"
proof (cases descending)
  case False
  then show ?thesis by simp
next
  case True
  with assms(2) obtain x0 x1 rest where xs: "xs = x0 # x1 # rest"
    and lt: "py_lt (f x1) (f x0)" and n: "n = 2 + run_descending (f x1) (map f rest)"
    by (cases "map f xs" rule: count_run.cases) (auto split: if_splits)
  have nn: "\<forall>k\<in>set (f x1 # map f rest). k \<noteq> NaN" using assms(1) xs by auto
  have "ord_key (f x1) < ord_key (f x0)" using lt assms(1) xs by (simp add: py_lt_ord)
  with run_descending_strict [OF nn]
  have "sorted_wrt (\<lambda>a b. ord_key (f b) < ord_key (f a)) (take n xs)"
    unfolding n xs by (auto simp add: take_map comp_def sorted_wrt_map intro: less_trans)
  from strictly_descending_filter_rev [OF this] True show ?thesis by simp
qed

lemma list_sort_stable:
  assumes "\<forall>x\<in>set xs. f x \<noteq> NaN"
  shows "filter (\<lambda>y. c = ord_key (f y)) (list_sort f xs) = filter (\<lambda>y. c = ord_key (f y)) xs"
proof -
  obtain n descending where cr: "count_run (map f xs) = (n, descending)"
    by (cases "count_run (map f xs)")
  let ?run = "if descending then rev (take n xs) else take n xs"
  have "sorted (map (\<lambda>a. ord_key (f a)) ?run)"
    by (rule count_run_sorted [OF assms cr])
  moreover have "\<forall>y\<in>set (?run @ drop n xs). f y \<noteq> NaN"
    using assms by (auto dest: in_set_takeD in_set_dropD)
  ultimately have "filter (\<lambda>y. c = ord_key (f y)) (binarysort f ?run (drop n xs))
      = filter (\<lambda>y. c = ord_key (f y)) ?run @ filter (\<lambda>y. c = ord_key (f y)) (drop n xs)"
    by (rule binarysort_stable)
  also have "\<dots> = filter (\<lambda>y. c = ord_key (f y)) (take n xs @ drop n xs)"
    by (simp only: count_run_stable [OF assms cr] filter_append)
  finally show ?thesis by (simp add: list_sort_def cr)
qed

text \<open>On keys without NaN the model is the stable sort.\<close>

lemma list_sort_is_stable_sort:
  assumes "\<forall>x\<in>set xs. f x \<noteq> NaN"
  shows "list_sort f xs = sort_key (\<lambda>a. ord_key (f a)) xs"
  by (rule properties_for_sort_key [symmetric])
     (simp_all add: mset_list_sort list_sort_stable [OF assms] list_sort_sorted [OF assms])

section \<open>Dictionaries: lookups after a store\<close>

lemma map_of_dict_set: "map_of (dict_set d k v) = (map_of d)(k \<mapsto> v)"
  by (induction d k v rule: dict_set.induct) auto

lemma keys_dict_set: "fst ` set (dict_set d k v) = insert k (fst ` set d)"
  by (induction d k v rule: dict_set.induct) auto

lemma distinct_dict_set: "distinct (map fst d) \<Longrightarrow> distinct (map fst (dict_set d k v))"
  by (induction d k v rule: dict_set.induct) (auto simp: keys_dict_set)

lemma dict_get_Inr: "dict_get d k = Inr v \<longleftrightarrow> map_of d k = Some v"
  by (simp add: dict_get_def split: option.splits)

lemma dict_get_Inl: "dict_get d k = Inl e \<longleftrightarrow> map_of d k = None \<and> e = KeyError k"
  by (auto simp add: dict_get_def split: option.splits)

section \<open>The season-end rank loop\<close>

lemma season_rank_loop_fails:
  "\<exists>p\<in>set ps. map_of counters (yp_position p) = None
     \<Longrightarrow> \<exists>k. map_of counters k = None \<and> season_rank_loop ranks counters ps = Inl (KeyError k)"
proof (induction ps arbitrary: ranks counters)
  case Nil
  then show ?case by simp
next
  case (Cons p ps)
  show ?case
  proof (cases "map_of counters (yp_position p)")
    case None
    then show ?thesis by (auto simp add: dict_get_def)
  next
    case (Some r)
    with Cons.prems have "\<exists>q\<in>set ps. map_of counters (yp_position q) = None" by auto
    then obtain q where q: "q \<in> set ps" "map_of counters (yp_position q) = None" by auto
    with Some have "yp_position q \<noteq> yp_position p" by auto
    with q have "\<exists>q\<in>set ps. map_of (dict_set counters (yp_position p) (r + 1)) (yp_position q) = None"
      by (auto simp: map_of_dict_set)
    from Cons.IH [OF this] obtain k where
      "map_of (dict_set counters (yp_position p) (r + 1)) k = None"
      "season_rank_loop (dict_set ranks (yp_id p) r) (dict_set counters (yp_position p) (r + 1)) ps
         = Inl (KeyError k)" by blast
    then show ?thesis using Some
      by (intro exI [of _ k]) (auto simp add: dict_get_def map_of_dict_set split: if_splits)
  qed
qed

lemma season_rank_loop_raises:
  assumes "season_rank_loop ranks counters ps = Inl e"
  obtains k where "e = KeyError k"
  using assms
proof (induction ps arbitrary: ranks counters thesis)
  case Nil
  then show ?case by simp
next
  case (Cons p ps)
  show ?case
  proof (cases "map_of counters (yp_position p)")
    case None
    with Cons.prems show ?thesis by (auto simp: dict_get_def)
  next
    case (Some r)
    with Cons.prems(2) have "season_rank_loop (dict_set ranks (yp_id p) r)
        (dict_set counters (yp_position p) (r + 1)) ps = Inl e"
      by (simp add: dict_get_def)
    from Cons.IH [OF _ this] Cons.prems(1) show ?thesis by blast
  qed
qed

lemma season_rank_loop_succeeds:
  "\<forall>p\<in>set ps. map_of counters (yp_position p) \<noteq> None
     \<Longrightarrow> \<exists>r. season_rank_loop ranks counters ps = Inr r"
proof (induction ps arbitrary: ranks counters)
  case Nil
  then show ?case by simp
next
  case (Cons p ps)
  then obtain r where r: "map_of counters (yp_position p) = Some r" by auto
  have "\<forall>q\<in>set ps. map_of (dict_set counters (yp_position p) (r + 1)) (yp_position q) \<noteq> None"
    using Cons.prems by (auto simp: map_of_dict_set)
  from Cons.IH [OF this] show ?case using r by (simp add: dict_get_def)
qed

lemma season_rank_loop_other:
  "season_rank_loop ranks counters ps = Inr r \<Longrightarrow> k \<notin> yp_id ` set ps
     \<Longrightarrow> map_of r k = map_of ranks k"
proof (induction ps arbitrary: ranks counters)
  case Nil
  then show ?case by simp
next
  case (Cons p ps)
  then show ?case
    by (auto simp: map_of_dict_set split: sum.splits)
qed

lemma upto_shift: "[c..c + int n] = c # [c + 1..c + int n]"
  by (simp add: upto_rec1)

lemma season_rank_loop_ranks:
  "season_rank_loop ranks counters ps = Inr r \<Longrightarrow> distinct (map yp_id ps)
     \<Longrightarrow> map_of counters pos = Some c
     \<Longrightarrow> map (\<lambda>p. dict_get r (yp_id p)) (filter (\<lambda>p. yp_position p = pos) ps)
           = map Inr [c..c + int (length (filter (\<lambda>p. yp_position p = pos) ps)) - 1]"
proof (induction ps arbitrary: ranks counters c)
  case Nil
  then show ?case by simp
next
  case (Cons p ps)
  from Cons.prems(1) obtain r0 where r0: "map_of counters (yp_position p) = Some r0"
    and rest: "season_rank_loop (dict_set ranks (yp_id p) r0)
                 (dict_set counters (yp_position p) (r0 + 1)) ps = Inr r"
    by (auto simp: dict_get_def split: option.splits)
  from Cons.prems(2) have d: "distinct (map yp_id ps)" and nin: "yp_id p \<notin> yp_id ` set ps"
    by auto
  show ?case
  proof (cases "yp_position p = pos")
    case True
    with r0 Cons.prems(3) have [simp]: "r0 = c" by simp
    have "map_of (dict_set counters (yp_position p) (r0 + 1)) pos = Some (c + 1)"
      using True by (simp add: map_of_dict_set)
    from Cons.IH [OF rest d this]
    have IH: "map (\<lambda>p. dict_get r (yp_id p)) (filter (\<lambda>p. yp_position p = pos) ps)
           = map Inr [c + 1..c + 1 + int (length (filter (\<lambda>p. yp_position p = pos) ps)) - 1]" .
    have "dict_get r (yp_id p) = Inr c"
      using season_rank_loop_other [OF rest nin] by (simp add: map_of_dict_set dict_get_def)
    then show ?thesis using True IH by (simp add: upto_shift del: upto.simps)
  next
    case False
    have "map_of (dict_set counters (yp_position p) (r0 + 1)) pos = Some c"
      using False Cons.prems(3) by (simp add: map_of_dict_set)
    from Cons.IH [OF rest d this] show ?thesis using False by simp
  qed
qed

lemma map_of_curr_position_ranks:
  "map_of curr_position_ranks pos = (if known_position pos then Some 1 else None)"
  by (simp add: curr_position_ranks_def known_position_def dict_keys_def)

lemma mset_players_sorted: "mset (players_sorted pd) = mset (dict_values pd)"
  by (simp add: players_sorted_def mset_sorted_reverse)

lemma set_players_sorted: "set (players_sorted pd) = set (dict_values pd)"
  by (simp add: players_sorted_def set_sorted_reverse)

lemma stats_mapping_ids: "stats_mapping pd \<Longrightarrow> map yp_id (dict_values pd) = dict_keys pd"
  by (auto simp: stats_mapping_def dict_values_def dict_keys_def)

lemma distinct_ids_sorted:
  assumes "stats_mapping pd"
  shows "distinct (map yp_id (players_sorted pd))"
proof -
  have "mset (map yp_id (players_sorted pd)) = mset (map yp_id (dict_values pd))"
    by (simp add: mset_players_sorted)
  moreover have "distinct (map yp_id (dict_values pd))"
    using assms by (simp add: stats_mapping_ids) (simp add: stats_mapping_def)
  ultimately show ?thesis by (metis mset_eq_imp_distinct_iff)
qed

lemma players_sorted_descending:
  assumes "no_nan pd"
  shows "sorted_wrt (\<lambda>a b. ord_key (yp_season_points b) \<le> ord_key (yp_season_points a))
           (players_sorted pd)"
  unfolding players_sorted_def
  by (rule sorted_reverse_descending) (use assms in \<open>simp add: no_nan_def\<close>)

text \<open>
  Where no season_points is a NaN, the players are sorted as by the stable sort of the
  library, between two reversals.
\<close>

lemma players_sorted_stable:
  assumes "no_nan pd"
  shows "players_sorted pd
       = rev (sort_key (\<lambda>v. ord_key (yp_season_points v)) (rev (dict_values pd)))"
  unfolding players_sorted_def sorted_reverse_def
  by (subst list_sort_is_stable_sort) (use assms in \<open>simp_all add: no_nan_def\<close>)

lemma filter_sorted_length:
  "length (filter P (players_sorted pd)) = length (filter P (dict_values pd))"
proof -
  have "size (filter_mset P (mset (players_sorted pd))) = size (filter_mset P (mset (dict_values pd)))"
    by (simp add: mset_players_sorted)
  then show ?thesis by (simp only: mset_filter [symmetric] size_mset)
qed

lemma ranks_by_position:
  assumes sm: "stats_mapping pd" and kp: "known_positions pd"
    and r: "get_player_position_season_point_ranks pd = Inr ranks"
  shows "map (\<lambda>v. dict_get ranks (yp_id v)) (filter (\<lambda>v. yp_position v = pos) (players_sorted pd))
       = map Inr [1..int (length (filter (\<lambda>v. yp_position v = pos) (dict_values pd)))]"
proof (cases "known_position pos")
  case True
  then have c: "map_of curr_position_ranks pos = Some 1"
    by (simp add: map_of_curr_position_ranks)
  from r have "season_rank_loop [] curr_position_ranks (players_sorted pd) = Inr ranks"
    by (simp add: get_player_position_season_point_ranks_def)
  from season_rank_loop_ranks [OF this distinct_ids_sorted [OF sm] c]
  show ?thesis by (simp add: filter_sorted_length)
next
  case False
  with kp have "filter (\<lambda>v. yp_position v = pos) (dict_values pd) = []"
    by (auto simp: known_positions_def filter_empty_conv)
  moreover from this have "filter (\<lambda>v. yp_position v = pos) (players_sorted pd) = []"
    by (simp add: filter_empty_conv set_players_sorted)
  ultimately show ?thesis by simp
qed

lemma ranks_returned:
  assumes "known_positions pd"
  shows "\<exists>ranks. get_player_position_season_point_ranks pd = Inr ranks"
  unfolding get_player_position_season_point_ranks_def
  by (rule season_rank_loop_succeeds)
     (use assms in \<open>auto simp: known_positions_def set_players_sorted map_of_curr_position_ranks\<close>)

lemma ranks_permutation:
  assumes sm: "stats_mapping pd" and kp: "known_positions pd"
    and r: "get_player_position_season_point_ranks pd = Inr ranks"
  shows "mset (map (\<lambda>v. dict_get ranks (yp_id v))
                 (filter (\<lambda>v. yp_position v = pos) (dict_values pd)))
       = mset (map Inr [1..int (length (filter (\<lambda>v. yp_position v = pos) (dict_values pd)))])"
proof -
  let ?g = "\<lambda>v. dict_get ranks (yp_id v)"
  have "mset (map ?g (filter (\<lambda>v. yp_position v = pos) (dict_values pd)))
      = image_mset ?g (filter_mset (\<lambda>v. yp_position v = pos) (mset (players_sorted pd)))"
    by (simp add: mset_players_sorted)
  also have "\<dots> = mset (map ?g (filter (\<lambda>v. yp_position v = pos) (players_sorted pd)))"
    by simp
  finally show ?thesis by (simp only: ranks_by_position [OF sm kp r])
qed

lemma ranks_known:
  assumes "get_player_position_season_point_ranks pd = Inr ranks"
  shows "known_positions pd"
proof (rule ccontr)
  assume "\<not> known_positions pd"
  then obtain v where "v \<in> set (players_sorted pd)" "\<not> known_position (yp_position v)"
    by (auto simp: known_positions_def set_players_sorted)
  then have "\<exists>p\<in>set (players_sorted pd). map_of curr_position_ranks (yp_position p) = None"
    by (auto simp: map_of_curr_position_ranks)
  from season_rank_loop_fails [OF this, of "[]"] assms show False
    by (auto simp: get_player_position_season_point_ranks_def)
qed

text \<open>
  The ranks of a position are 1, ..., k in whatever order the players are ranked: this
  half of the result does not depend on how \<open>sorted\<close> orders keys that hold a NaN.
\<close>

lemma ranks_any_order:
  assumes sm: "stats_mapping pd" and kp: "known_positions pd"
    and ps: "mset ps = mset (dict_values pd)"
  shows "\<exists>ranks. season_rank_loop [] curr_position_ranks ps = Inr ranks \<and>
     (\<forall>pos. mset (map (\<lambda>v. dict_get ranks (yp_id v))
                 (filter (\<lambda>v. yp_position v = pos) (dict_values pd)))
           = mset (map Inr [1..int (length (filter (\<lambda>v. yp_position v = pos) (dict_values pd)))]))"
proof -
  from ps have set_ps: "set ps = set (dict_values pd)" by (rule mset_eq_setD)
  with kp have "\<forall>p\<in>set ps. map_of curr_position_ranks (yp_position p) \<noteq> None"
    by (simp add: known_positions_def map_of_curr_position_ranks)
  from season_rank_loop_succeeds [OF this] obtain ranks
    where loop: "season_rank_loop [] curr_position_ranks ps = Inr ranks" ..
  have "distinct (map yp_id (dict_values pd))"
    using sm by (simp add: stats_mapping_ids) (simp add: stats_mapping_def)
  moreover have "mset (map yp_id ps) = mset (map yp_id (dict_values pd))"
    by (simp add: ps)
  ultimately have dist: "distinct (map yp_id ps)" by (metis mset_eq_imp_distinct_iff)
  let ?g = "\<lambda>v. dict_get ranks (yp_id v)"
  have "mset (map ?g (filter (\<lambda>v. yp_position v = pos) (dict_values pd)))
      = mset (map Inr [1..int (length (filter (\<lambda>v. yp_position v = pos) (dict_values pd)))])"
    for pos
  proof -
    let ?P = "\<lambda>v. yp_position v = pos"
    have len: "length (filter ?P ps) = length (filter ?P (dict_values pd))"
    proof -
      have "size (filter_mset ?P (mset ps)) = size (filter_mset ?P (mset (dict_values pd)))"
        by (simp add: ps)
      then show ?thesis by (simp only: mset_filter [symmetric] size_mset)
    qed
    have "map ?g (filter ?P ps) = map Inr [1..int (length (filter ?P ps))]"
    proof (cases "known_position pos")
      case True
      then have "map_of curr_position_ranks pos = Some 1"
        by (simp add: map_of_curr_position_ranks)
      from season_rank_loop_ranks [OF loop dist this] show ?thesis by simp
    next
      case False
      with kp set_ps have "filter ?P ps = []"
        by (auto simp: known_positions_def filter_empty_conv)
      then show ?thesis by simp
    qed
    moreover have "mset (map ?g (filter ?P (dict_values pd))) = mset (map ?g (filter ?P ps))"
      by (simp add: ps)
    ultimately show ?thesis by (simp only: len)
  qed
  with loop show ?thesis by blast
qed

section \<open>The draft loop\<close>

lemma dd_peek_alt:
  "dd_peek d k = (case map_of (dd_items d) k of Some v \<Rightarrow> v | None \<Rightarrow> dd_factory d)"
  by (simp add: dd_peek_def dd_getitem_def split: option.splits)

lemma dd_peek_iadd:
  "dd_peek (dd_iadd (snd (dd_getitem d k)) k n) k' = (if k' = k then dd_peek d k + n else dd_peek d k')"
  by (auto simp: dd_peek_alt dd_iadd_def dd_getitem_def dd_setitem_def map_of_dict_set
      split: option.splits)

lemma dd_peek_new: "dd_peek (dd_new v) k = v"
  by (simp add: dd_peek_alt dd_new_def)

lemma season_rank_loop_dom:
  "season_rank_loop ranks counters ps = Inr r
     \<Longrightarrow> dom (map_of r) = dom (map_of ranks) \<union> yp_id ` set ps"
proof (induction ps arbitrary: ranks counters)
  case Nil
  then show ?case by simp
next
  case (Cons p ps)
  from Cons.prems obtain r0 where
    rest: "season_rank_loop (dict_set ranks (yp_id p) r0)
                 (dict_set counters (yp_position p) (r0 + 1)) ps = Inr r"
    by (auto split: sum.splits)
  from Cons.IH [OF rest] show ?case by (auto simp: map_of_dict_set)
qed

lemma analysis_loop_fails:
  "\<exists>pick\<in>set picks. map_of pd (dp_id pick) = None
     \<Longrightarrow> \<exists>k. analysis_loop pd ranks counters picks acc = Inl (KeyError k)"
proof (induction picks arbitrary: counters acc)
  case Nil
  then show ?case by simp
next
  case (Cons pick picks)
  show ?case
  proof (cases "map_of pd (dp_id pick)")
    case None
    then show ?thesis by (simp add: dict_get_def)
  next
    case (Some stats)
    with Cons.prems have rest: "\<exists>pick\<in>set picks. map_of pd (dp_id pick) = None" by auto
    show ?thesis
    proof (cases "map_of ranks (dp_id pick)")
      case None
      with Some show ?thesis by (simp add: dict_get_def split_beta)
    next
      case (Some r)
      with \<open>map_of pd (dp_id pick) = Some stats\<close> Cons.IH [OF rest]
      show ?thesis by (simp add: dict_get_def split_beta)
    qed
  qed
qed

lemma analysis_loop_returns:
  "\<forall>pick\<in>set picks. map_of pd (dp_id pick) \<noteq> None \<and> map_of ranks (dp_id pick) \<noteq> None
     \<Longrightarrow> \<exists>out. analysis_loop pd ranks counters picks acc = Inr out"
proof (induction picks arbitrary: counters acc)
  case Nil
  then show ?case by simp
next
  case (Cons pick picks)
  from Cons.prems obtain stats r where
    "map_of pd (dp_id pick) = Some stats" "map_of ranks (dp_id pick) = Some r" by auto
  moreover from Cons.prems have
    "\<forall>pick\<in>set picks. map_of pd (dp_id pick) \<noteq> None \<and> map_of ranks (dp_id pick) \<noteq> None" by simp
  note Cons.IH [OF this]
  ultimately show ?case by (simp add: dict_get_def split_beta)
qed

lemma analysis_loop_result:
  "analysis_loop pd ranks counters picks acc = Inr out
     \<Longrightarrow> \<exists>new. out = acc @ new \<and> list_all2 (derived pd ranks) picks new \<and>
           (\<forall>pos. map pa_draft_position_rank (filter (\<lambda>a. pa_position a = pos) new)
                  = [dd_peek counters pos..
                     dd_peek counters pos + int (length (filter (\<lambda>a. pa_position a = pos) new)) - 1])"
proof (induction picks arbitrary: counters acc)
  case Nil
  then show ?case by simp
next
  case (Cons pick picks)
  from Cons.prems obtain stats r where
    stats: "dict_get pd (dp_id pick) = Inr stats" and r: "dict_get ranks (dp_id pick) = Inr r"
    by (auto simp: split_beta split: sum.splits)
  define a where "a = \<lparr>pa_id = dp_id pick,
                          pa_team_name = dp_team_name pick,
                          pa_first_name = dp_first_name pick,
                          pa_last_name = dp_last_name pick,
                          pa_position = yp_position stats,
                          pa_overall_pick = dp_overall_pick pick,
                          pa_season_points = yp_season_points stats,
                          pa_draft_position_rank = dd_peek counters (yp_position stats),
                          pa_season_end_position_rank = r,
                          pa_differential = dd_peek counters (yp_position stats) - r\<rparr>"
  define counters2 where
    "counters2 = dd_iadd (snd (dd_getitem counters (yp_position stats))) (yp_position stats) 1"
  from Cons.prems stats r
  have "analysis_loop pd ranks counters2 picks (acc @ [a]) = Inr out"
    by (simp add: split_beta a_def counters2_def dd_peek_def)
  from Cons.IH [OF this] obtain new where
    out: "out = (acc @ [a]) @ new" and all2: "list_all2 (derived pd ranks) picks new"
    and dr: "\<And>pos. map pa_draft_position_rank (filter (\<lambda>a. pa_position a = pos) new)
                  = [dd_peek counters2 pos..
                     dd_peek counters2 pos + int (length (filter (\<lambda>a. pa_position a = pos) new)) - 1]"
    by blast
  have da: "derived pd ranks pick a"
    using stats r by (simp add: derived_def a_def)
  have "map pa_draft_position_rank (filter (\<lambda>a. pa_position a = pos) (a # new))
                  = [dd_peek counters pos..
                     dd_peek counters pos + int (length (filter (\<lambda>a. pa_position a = pos) (a # new))) - 1]" for pos
  proof (cases "pa_position a = pos")
    case True
    then have pos: "yp_position stats = pos" by (simp add: a_def)
    have "dd_peek counters2 pos = dd_peek counters pos + 1"
      by (simp add: counters2_def dd_peek_iadd pos)
    with dr [of pos] True show ?thesis
      by (simp add: upto_shift add.commute add.left_commute del: upto.simps) (simp add: a_def pos)
  next
    case False
    then have pos: "yp_position stats \<noteq> pos" by (simp add: a_def)
    have "dd_peek counters2 pos = dd_peek counters pos"
      using pos by (simp add: counters2_def dd_peek_iadd)
    with dr [of pos] False show ?thesis by simp
  qed
  with out all2 da show ?case by (intro exI [of _ "a # new"]) simp
qed

section \<open>\<open>get_player_analysis\<close>: when it returns, and what\<close>

lemma ranks_dom:
  assumes "stats_mapping pd" and "get_player_position_season_point_ranks pd = Inr ranks"
  shows "dom (map_of ranks) = set (dict_keys pd)"
proof -
  from assms(2) have "season_rank_loop [] curr_position_ranks (players_sorted pd) = Inr ranks"
    by (simp add: get_player_position_season_point_ranks_def)
  from season_rank_loop_dom [OF this]
  have "dom (map_of ranks) = yp_id ` set (dict_values pd)"
    by (simp add: set_players_sorted)
  also have "\<dots> = set (map yp_id (dict_values pd))" by simp
  finally show ?thesis by (simp only: stats_mapping_ids [OF assms(1)])
qed

lemma covered_lookup:
  assumes "covers pd picks" and "pick \<in> set picks"
  shows "map_of pd (dp_id pick) \<noteq> None"
proof -
  from assms have "dp_id pick \<in> fst ` set pd" by (auto simp: covers_def dict_keys_def)
  then show ?thesis by (simp add: map_of_eq_None_iff)
qed

lemma analysis_returns:
  assumes sm: "stats_mapping pd" and kp: "known_positions pd" and cov: "covers pd picks"
  shows "\<exists>out. get_player_analysis picks pd = Inr out"
proof -
  from ranks_returned [OF kp] obtain ranks
    where r: "get_player_position_season_point_ranks pd = Inr ranks" ..
  have "map_of pd (dp_id pick) \<noteq> None \<and> map_of ranks (dp_id pick) \<noteq> None"
    if "pick \<in> set picks" for pick
  proof
    show "map_of pd (dp_id pick) \<noteq> None" by (rule covered_lookup [OF cov that])
    from cov that have "dp_id pick \<in> dom (map_of ranks)"
      by (simp add: ranks_dom [OF sm r] covers_def)
    then show "map_of ranks (dp_id pick) \<noteq> None" by auto
  qed
  then have "\<exists>out. analysis_loop pd ranks (dd_new 1) picks [] = Inr out"
    by (intro analysis_loop_returns) blast
  with r show ?thesis by (simp add: get_player_analysis_def)
qed

lemma analysis_result:
  assumes "get_player_analysis picks pd = Inr out"
  shows "\<exists>ranks. get_player_position_season_point_ranks pd = Inr ranks \<and>
           list_all2 (derived pd ranks) picks out \<and>
           (\<forall>pos. map pa_draft_position_rank (filter (\<lambda>a. pa_position a = pos) out)
                  = [1..int (length (filter (\<lambda>a. pa_position a = pos) out))])"
proof -
  from assms obtain ranks where r: "get_player_position_season_point_ranks pd = Inr ranks"
    and loop: "analysis_loop pd ranks (dd_new 1) picks [] = Inr out"
    by (auto simp: get_player_analysis_def split: sum.splits)
  from analysis_loop_result [OF loop] r show ?thesis
    by (auto simp: dd_peek_new)
qed

lemma list_all2_filter:
  "list_all2 R xs ys \<Longrightarrow> (\<And>x y. R x y \<Longrightarrow> P x = Q y)
     \<Longrightarrow> list_all2 R (filter P xs) (filter Q ys)"
  by (induction rule: list_all2_induct) auto

lemma list_all2_map_eq:
  "list_all2 R xs ys \<Longrightarrow> (\<And>x y. R x y \<Longrightarrow> f x = g y) \<Longrightarrow> map f xs = map g ys"
  by (induction rule: list_all2_induct) auto

lemma derived_position:
  "derived pd ranks pick a \<Longrightarrow> (pick_position pd pick = Some pos) = (pa_position a = pos)"
  by (auto simp: derived_def pick_position_def split: sum.splits)

lemma drafted_at_position:
  assumes "list_all2 (derived pd ranks) picks out"
  shows "list_all2 (derived pd ranks)
           (filter (\<lambda>pick. pick_position pd pick = Some pos) picks)
           (filter (\<lambda>a. pa_position a = pos) out)"
  by (rule list_all2_filter [OF assms]) (rule derived_position)

lemma derived_fields:
  assumes "derived pd ranks pick a"
  shows "pa_id a = dp_id pick \<and>
         pa_team_name a = dp_team_name pick \<and>
         pa_first_name a = dp_first_name pick \<and>
         pa_last_name a = dp_last_name pick \<and>
         pa_overall_pick a = dp_overall_pick pick \<and>
         (\<exists>stats. dict_get pd (dp_id pick) = Inr stats \<and>
            pa_position a = yp_position stats \<and>
            pa_season_points a = yp_season_points stats) \<and>
         dict_get ranks (dp_id pick) = Inr (pa_season_end_position_rank a) \<and>
         pa_differential a = pa_draft_position_rank a - pa_season_end_position_rank a"
  using assms by (cases "dict_get pd (dp_id pick)") (simp_all add: derived_def)

section \<open>Running the model on the concrete inputs\<close>

lemmas run_defs =
  get_player_analysis_def get_player_position_season_point_ranks_def players_sorted_def
  curr_position_ranks_def dict_get_def dict_keys_def dict_values_def
  dd_new_def dd_getitem_def dd_setitem_def dd_iadd_def dd_append_def
  sorted_reverse_def list_sort_def binarysort_def binary_insert_def bisect.simps

lemma example_stats_mapping: "stats_mapping example_stats"
  by (simp add: stats_mapping_def example_stats_def dict_keys_def)

lemma example_known_positions: "known_positions example_stats"
  by (simp add: known_positions_def known_position_def example_stats_def run_defs)

lemma example_covers: "covers example_stats example_draft"
  by (simp add: covers_def example_stats_def example_draft_def dict_keys_def)

lemma example_ranks:
  "get_player_position_season_point_ranks example_stats = Inr [(''2'', 1), (''1'', 2), (''3'', 1)]"
  by (simp add: example_stats_def run_defs)

lemma example_analysis: "get_player_analysis example_draft example_stats = Inr example_players"
  by (simp add: example_stats_def example_draft_def example_players_def run_defs)

lemma example_teams:
  "dd_items (get_players_by_team example_players)
     = [(''A'', [example_players ! 0, example_players ! 2]), (''B'', [example_players ! 1])]"
  by (simp add: get_players_by_team_def example_players_def run_defs)

lemma example_team_differentials:
  "dd_items (get_team_differentials example_players) = [(''A'', - 1), (''B'', 1)]"
  by (simp add: get_team_differentials_def example_players_def run_defs)

section \<open>The team aggregator: what the loops store\<close>

lemma dd_peek_setitem:
  "dd_peek (dd_setitem d k v) t = (if t = k then v else dd_peek d t)"
  by (simp add: dd_peek_alt dd_setitem_def map_of_dict_set split: option.splits)

lemma dd_peek_after_getitem: "dd_peek (snd (dd_getitem d k)) t = dd_peek d t"
  by (auto simp: dd_peek_alt dd_getitem_def map_of_dict_set split: option.splits)

lemma dd_keys_setitem:
  "dom (map_of (dd_items (dd_setitem d k v))) = insert k (dom (map_of (dd_items d)))"
  by (simp add: dd_setitem_def map_of_dict_set)

lemma dd_keys_after_getitem:
  "dom (map_of (dd_items (snd (dd_getitem d k)))) = insert k (dom (map_of (dd_items d)))"
  by (auto simp: dd_getitem_def map_of_dict_set split: option.splits)

lemma dd_distinct_setitem:
  "distinct (map fst (dd_items d)) \<Longrightarrow> distinct (map fst (dd_items (dd_setitem d k v)))"
  by (simp add: dd_setitem_def distinct_dict_set)

lemma dd_distinct_after_getitem:
  "distinct (map fst (dd_items d)) \<Longrightarrow> distinct (map fst (dd_items (snd (dd_getitem d k))))"
  by (simp add: dd_getitem_def distinct_dict_set split: option.splits)

lemma dd_stored:
  "k \<in> dom (map_of (dd_items d)) \<Longrightarrow> dict_get (dd_items d) k = Inr (dd_peek d k)"
  by (auto simp: dict_get_def dd_peek_alt)

lemma dd_not_stored:
  "k \<notin> dom (map_of (dd_items d))
     \<Longrightarrow> dict_get (dd_items d) k = Inl (KeyError k) \<and> dd_peek d k = dd_factory d"
  by (auto simp: dict_get_def dd_peek_alt split: option.splits)

text \<open>\<open>+=\<close> and \<open>append\<close> on one key.\<close>

lemma dd_peek_iadd_key:
  "dd_peek (dd_iadd d k n) t = (if t = k then dd_peek d k + n else dd_peek d t)"
  by (simp add: dd_iadd_def split_beta dd_peek_setitem dd_peek_after_getitem)
     (simp add: dd_peek_def)

lemma dd_peek_append:
  "dd_peek (dd_append d k x) t = (if t = k then dd_peek d k @ [x] else dd_peek d t)"
  by (simp add: dd_append_def split_beta dd_peek_setitem dd_peek_after_getitem)
     (simp add: dd_peek_def)

lemma dd_keys_iadd:
  "dom (map_of (dd_items (dd_iadd d k n))) = insert k (dom (map_of (dd_items d)))"
  by (simp add: dd_iadd_def split_beta dd_keys_setitem dd_keys_after_getitem)

lemma dd_keys_append:
  "dom (map_of (dd_items (dd_append d k x))) = insert k (dom (map_of (dd_items d)))"
  by (simp add: dd_append_def split_beta dd_keys_setitem dd_keys_after_getitem)

lemma dd_distinct_iadd:
  "distinct (map fst (dd_items d)) \<Longrightarrow> distinct (map fst (dd_items (dd_iadd d k n)))"
  by (simp add: dd_iadd_def split_beta dd_distinct_setitem dd_distinct_after_getitem)

lemma dd_distinct_append:
  "distinct (map fst (dd_items d)) \<Longrightarrow> distinct (map fst (dd_items (dd_append d k x)))"
  by (simp add: dd_append_def split_beta dd_distinct_setitem dd_distinct_after_getitem)

lemma dd_factory_iadd: "dd_factory (dd_iadd d k n) = dd_factory d"
  by (simp add: dd_iadd_def dd_getitem_def dd_setitem_def split: option.splits)

lemma dd_factory_append: "dd_factory (dd_append d k x) = dd_factory d"
  by (simp add: dd_append_def dd_getitem_def dd_setitem_def split: option.splits)

subsection \<open>\<open>get_team_differentials\<close>\<close>

lemma differential_loop_peek:
  "dd_peek (differential_loop d ps) t
     = dd_peek d t + sum_list (map pa_differential (filter (\<lambda>p. pa_team_name p = t) ps))"
  by (induction ps arbitrary: d) (simp_all add: dd_peek_iadd_key)

lemma differential_loop_keys:
  "dom (map_of (dd_items (differential_loop d ps)))
     = dom (map_of (dd_items d)) \<union> pa_team_name ` set ps"
  by (induction ps arbitrary: d) (simp_all add: dd_keys_iadd)

lemma differential_loop_factory: "dd_factory (differential_loop d ps) = dd_factory d"
  by (induction ps arbitrary: d) (simp_all add: dd_factory_iadd)

lemma team_differentials_peek:
  "dd_peek (get_team_differentials players) t
     = sum_list (map pa_differential (filter (\<lambda>p. pa_team_name p = t) players))"
  by (simp add: get_team_differentials_def differential_loop_peek dd_peek_new)

lemma team_differentials_keys:
  "dom (map_of (dd_items (get_team_differentials players))) = pa_team_name ` set players"
  by (simp add: get_team_differentials_def differential_loop_keys dd_new_def)

subsection \<open>\<open>get_players_by_team\<close>\<close>

lemma group_loop_peek:
  "dd_peek (group_loop d ps) t = dd_peek d t @ filter (\<lambda>p. pa_team_name p = t) ps"
  by (induction ps arbitrary: d) (simp_all add: dd_peek_append)

lemma group_loop_keys:
  "dom (map_of (dd_items (group_loop d ps)))
     = dom (map_of (dd_items d)) \<union> pa_team_name ` set ps"
  by (induction ps arbitrary: d) (simp_all add: dd_keys_append)

lemma group_loop_distinct:
  "distinct (map fst (dd_items d)) \<Longrightarrow> distinct (map fst (dd_items (group_loop d ps)))"
  by (induction ps arbitrary: d) (simp_all add: dd_distinct_append)

lemma group_loop_factory: "dd_factory (group_loop d ps) = dd_factory d"
  by (induction ps arbitrary: d) (simp_all add: dd_factory_append)

lemma sort_key_twice: "sort_key f (sort_key f xs) = sort_key f xs"
  by (simp add: sort_key_id_if_sorted)

lemma sort_loop_peek:
  "dd_peek (sort_loop d ts) t
     = (if t \<in> set ts then sort_key pa_overall_pick (dd_peek d t) else dd_peek d t)"
proof (induction ts arbitrary: d)
  case Nil
  then show ?case by simp
next
  case (Cons t' ts)
  have step: "dd_peek (case dd_getitem d t' of
                  (l, teams1) \<Rightarrow> dd_setitem teams1 t' (sort_key pa_overall_pick l)) u
          = (if u = t' then sort_key pa_overall_pick (dd_peek d u) else dd_peek d u)" for u
    by (simp add: split_beta dd_peek_setitem dd_peek_after_getitem) (simp add: dd_peek_def)
  show ?case by (simp add: Cons.IH step sort_key_twice)
qed

lemma sort_loop_keys:
  "dom (map_of (dd_items (sort_loop d ts))) = dom (map_of (dd_items d)) \<union> set ts"
  by (induction ts arbitrary: d)
     (simp_all add: split_beta dd_keys_setitem dd_keys_after_getitem)

lemma sort_loop_distinct:
  "distinct (map fst (dd_items d)) \<Longrightarrow> distinct (map fst (dd_items (sort_loop d ts)))"
  by (induction ts arbitrary: d)
     (simp_all add: split_beta dd_distinct_setitem dd_distinct_after_getitem)

lemma sort_loop_factory: "dd_factory (sort_loop d ts) = dd_factory d"
  by (induction ts arbitrary: d)
     (simp_all add: split_beta dd_setitem_def dd_getitem_def split: option.splits)

lemma dom_map_of_keys: "dom (map_of d) = set (dict_keys d)"
  by (simp add: dom_map_of_conv_image_fst dict_keys_def)

lemma players_by_team_peek:
  "dd_peek (get_players_by_team players) t
     = sort_key pa_overall_pick (filter (\<lambda>p. pa_team_name p = t) players)"
proof (cases "t \<in> pa_team_name ` set players")
  case True
  then have "t \<in> set (dict_keys (dd_items (group_loop (dd_new []) players)))"
    by (simp add: dom_map_of_keys [symmetric] group_loop_keys)
  then show ?thesis
    by (simp add: get_players_by_team_def Let_def sort_loop_peek group_loop_peek dd_peek_new)
next
  case False
  then have "filter (\<lambda>p. pa_team_name p = t) players = []"
    by (auto simp: filter_empty_conv)
  then show ?thesis
    by (simp add: get_players_by_team_def Let_def sort_loop_peek group_loop_peek dd_peek_new)
qed

lemma players_by_team_keys:
  "dom (map_of (dd_items (get_players_by_team players))) = pa_team_name ` set players"
  by (auto simp add: get_players_by_team_def Let_def sort_loop_keys group_loop_keys
        dom_map_of_keys [symmetric] dd_new_def)

lemma players_by_team_distinct:
  "distinct (dict_keys (dd_items (get_players_by_team players)))"
  unfolding dict_keys_def get_players_by_team_def Let_def
  by (intro sort_loop_distinct group_loop_distinct) (simp add: dd_new_def)

text \<open>The team lists together hold the input, each player once.\<close>

lemma partition_by_key:
  "distinct ks \<Longrightarrow> g ` set_mset M \<subseteq> set ks
     \<Longrightarrow> (\<Sum>k\<leftarrow>ks. filter_mset (\<lambda>p. g p = k) M) = M"
proof (induction ks arbitrary: M)
  case Nil
  then show ?case by simp
next
  case (Cons k ks)
  define M' where "M' = filter_mset (\<lambda>p. g p \<noteq> k) M"
  have "filter_mset (\<lambda>p. g p = k') M = filter_mset (\<lambda>p. g p = k') M'" if "k' \<in> set ks" for k'
  proof -
    from that Cons.prems(1) have "k' \<noteq> k" by auto
    then show ?thesis by (intro multiset_eqI) (simp add: M'_def)
  qed
  then have "(\<Sum>k'\<leftarrow>ks. filter_mset (\<lambda>p. g p = k') M) = (\<Sum>k'\<leftarrow>ks. filter_mset (\<lambda>p. g p = k') M')"
    by (intro arg_cong [where f = sum_list] map_cong) simp_all
  also have "\<dots> = M'"
  proof (rule Cons.IH)
    show "distinct ks" using Cons.prems(1) by simp
    show "g ` set_mset M' \<subseteq> set ks" using Cons.prems(2) by (auto simp: M'_def)
  qed
  finally have "(\<Sum>k'\<leftarrow>k # ks. filter_mset (\<lambda>p. g p = k') M)
      = filter_mset (\<lambda>p. g p = k) M + filter_mset (\<lambda>p. \<not> g p = k) M"
    by (simp add: M'_def)
  then show ?case by (simp only: multiset_partition [symmetric])
qed

lemma dd_values_by_key:
  assumes "distinct (map fst (dd_items d))"
  shows "dict_values (dd_items d) = map (dd_peek d) (dict_keys (dd_items d))"
proof -
  have "snd kv = dd_peek d (fst kv)" if "kv \<in> set (dd_items d)" for kv
  proof -
    from that assms have "map_of (dd_items d) (fst kv) = Some (snd kv)" by simp
    then show ?thesis by (simp add: dd_peek_alt)
  qed
  then show ?thesis by (simp add: dict_values_def dict_keys_def)
qed

lemma players_by_team_cover:
  "mset (concat (dict_values (dd_items (get_players_by_team players)))) = mset players"
proof -
  let ?d = "get_players_by_team players"
  let ?ks = "dict_keys (dd_items ?d)"
  have d: "distinct ?ks" by (rule players_by_team_distinct)
  have ks: "set ?ks = pa_team_name ` set players"
    by (simp only: dom_map_of_keys [symmetric] players_by_team_keys)
  have "mset (concat (dict_values (dd_items ?d))) = (\<Sum>k\<leftarrow>?ks. mset (dd_peek ?d k))"
    using d by (simp add: dd_values_by_key dict_keys_def mset_concat comp_def)
  also have "\<dots> = (\<Sum>k\<leftarrow>?ks. filter_mset (\<lambda>p. pa_team_name p = k) (mset players))"
    by (simp add: players_by_team_peek)
  also have "\<dots> = mset players"
    by (rule partition_by_key [OF d]) (simp add: ks)
  finally show ?thesis .
qed

section \<open>The differentials of a whole draft\<close>

lemma sum_dict_set:
  "sum_list (map snd (dict_set d k v))
     = sum_list (map snd d) - (case map_of d k of None \<Rightarrow> 0 | Some w \<Rightarrow> w) + (v::int)"
  by (induction d k v rule: dict_set.induct) auto

lemma sum_dd_iadd:
  assumes "dd_factory d = 0"
  shows "sum_list (map snd (dd_items (dd_iadd d k n))) = sum_list (map snd (dd_items d)) + n"
  using assms
  by (cases "map_of (dd_items d) k")
     (simp_all add: dd_iadd_def dd_getitem_def dd_setitem_def sum_dict_set map_of_dict_set)

lemma differential_loop_total:
  "dd_factory d = 0
     \<Longrightarrow> sum_list (map snd (dd_items (differential_loop d ps)))
           = sum_list (map snd (dd_items d)) + sum_list (map pa_differential ps)"
  by (induction ps arbitrary: d) (simp_all add: sum_dd_iadd dd_factory_iadd)

lemma team_differentials_total:
  "sum_list (map snd (dd_items (get_team_differentials players)))
     = sum_list (map pa_differential players)"
  by (simp add: get_team_differentials_def differential_loop_total dd_new_def)

lemma sum_list_split:
  "sum_list (map f xs)
     = sum_list (map f (filter P xs)) + (sum_list (map f (filter (\<lambda>x. \<not> P x) xs)) :: int)"
  by (induction xs) simp_all

lemma sum_list_by_key_zero:
  "(\<And>k. sum_list (map f (filter (\<lambda>x. g x = k) xs)) = (0::int)) \<Longrightarrow> sum_list (map f xs) = 0"
proof (induction "length xs" arbitrary: xs rule: less_induct)
  case less
  show ?case
  proof (cases xs)
    case Nil
    then show ?thesis by simp
  next
    case (Cons x xs')
    define ys where "ys = filter (\<lambda>y. g y \<noteq> g x) xs"
    have "length ys < length xs"
      unfolding ys_def by (rule length_filter_less [of x]) (simp_all add: Cons)
    moreover have "sum_list (map f (filter (\<lambda>y. g y = k) ys)) = 0" for k
    proof (cases "k = g x")
      case True
      then have "filter (\<lambda>y. g y = k) ys = []"
        by (auto simp: ys_def filter_empty_conv)
      then show ?thesis by simp
    next
      case False
      then have "filter (\<lambda>y. g y = k) ys = filter (\<lambda>y. g y = k) xs"
        by (auto simp: ys_def intro: filter_cong)
      with less.prems [of k] show ?thesis by simp
    qed
    ultimately have "sum_list (map f ys) = 0" by (rule less.hyps)
    with less.prems [of "g x"] sum_list_split [of f xs "\<lambda>y. g y = g x"]
    show ?thesis by (simp add: ys_def)
  qed
qed

lemma list_all2_right:
  "list_all2 R xs ys \<Longrightarrow> y \<in> set ys \<Longrightarrow> \<exists>x\<in>set xs. R x y"
  by (induction rule: list_all2_induct) auto

lemma stats_lookup:
  assumes "stats_mapping pd" and "v \<in> set (dict_values pd)"
  shows "dict_get pd (yp_id v) = Inr v"
proof -
  from assms(2) obtain k where kv: "(k, v) \<in> set pd" by (auto simp: dict_values_def)
  with assms(1) have "yp_id v = k" by (auto simp: stats_mapping_def)
  moreover from assms(1) kv have "map_of pd k = Some v"
    by (simp add: stats_mapping_def dict_keys_def)
  ultimately show ?thesis by (simp add: dict_get_def)
qed

text \<open>
  When the draft picks every player of the stats once, the season-end ranks met by the
  analyses of a position are those of all the players of that position.
\<close>

lemma season_ranks_of_analysis:
  assumes sm: "stats_mapping pd"
    and keys: "set (dict_keys pd) = dp_id ` set picks"
    and dist: "distinct (map dp_id picks)"
    and r: "get_player_position_season_point_ranks pd = Inr ranks"
    and all2: "list_all2 (derived pd ranks) picks out"
  shows "mset (map pa_season_end_position_rank (filter (\<lambda>a. pa_position a = pos) out))
       = mset [1..int (length (filter (\<lambda>v. yp_position v = pos) (dict_values pd)))]"
proof -
  define pos_of where
    "pos_of i = (case dict_get pd i of Inl e \<Rightarrow> None | Inr v \<Rightarrow> Some (yp_position v))" for i
  let ?P = "\<lambda>i. pos_of i = Some pos"
  have a: "pos_of (pa_id a) = Some (pa_position a) \<and>
           dict_get ranks (pa_id a) = Inr (pa_season_end_position_rank a)"
    if "a \<in> set out" for a
  proof -
    from list_all2_right [OF all2 that] obtain pick where "derived pd ranks pick a" by blast
    then show ?thesis
      by (cases "dict_get pd (dp_id pick)") (simp_all add: derived_def pos_of_def)
  qed
  have b: "pos_of (yp_id v) = Some (yp_position v)" if "v \<in> set (dict_values pd)" for v
    by (simp add: pos_of_def stats_lookup [OF sm that])
  have ids: "mset (map pa_id out) = mset (map yp_id (dict_values pd))"
  proof -
    have "map pa_id out = map dp_id picks"
      by (rule list_all2_map_eq [OF all2, symmetric]) (simp add: derived_def)
    moreover have "mset (map dp_id picks) = mset (dict_keys pd)"
    proof -
      have "distinct (dict_keys pd)" using sm by (simp add: stats_mapping_def)
      moreover have "set (map dp_id picks) = set (dict_keys pd)" using keys by simp
      ultimately show ?thesis
        using dist set_eq_iff_mset_eq_distinct [of "map dp_id picks" "dict_keys pd"] by blast
    qed
    ultimately show ?thesis by (simp add: stats_mapping_ids [OF sm])
  qed
  have "map (\<lambda>a. Inr (pa_season_end_position_rank a)) (filter (\<lambda>a. pa_position a = pos) out)
      = map (dict_get ranks) (filter ?P (map pa_id out))"
  proof -
    have "filter (\<lambda>a. pa_position a = pos) out = filter (\<lambda>a. ?P (pa_id a)) out"
      by (rule filter_cong) (auto simp: a)
    moreover have "map (\<lambda>a. Inr (pa_season_end_position_rank a)) (filter (\<lambda>a. ?P (pa_id a)) out)
      = map (\<lambda>a. dict_get ranks (pa_id a)) (filter (\<lambda>a. ?P (pa_id a)) out)"
      by (rule map_cong) (auto simp: a)
    ultimately show ?thesis by (simp add: filter_map comp_def)
  qed
  then have "image_mset Inr (mset (map pa_season_end_position_rank
                (filter (\<lambda>a. pa_position a = pos) out)))
      = image_mset (dict_get ranks) (filter_mset ?P (mset (map pa_id out)))"
    by (simp only: mset_map [symmetric] mset_filter [symmetric] map_map comp_def)
  also have "\<dots> = mset (map (dict_get ranks) (filter ?P (map yp_id (dict_values pd))))"
    using ids by simp
  also have "\<dots> = mset (map (\<lambda>v. dict_get ranks (yp_id v))
                        (filter (\<lambda>v. yp_position v = pos) (dict_values pd)))"
  proof -
    have "filter (\<lambda>v. ?P (yp_id v)) (dict_values pd)
        = filter (\<lambda>v. yp_position v = pos) (dict_values pd)"
      by (rule filter_cong) (auto simp: b)
    then show ?thesis by (simp add: filter_map comp_def)
  qed
  also have "\<dots> = image_mset Inr
      (mset [1..int (length (filter (\<lambda>v. yp_position v = pos) (dict_values pd)))])"
    using ranks_permutation [OF sm ranks_known [OF r] r, of pos] by simp
  finally show ?thesis
    by (rule injD [OF multiset.inj_map [OF inj_Inr]])
qed

lemma sum_upto_eq_mset:
  assumes "mset xs = mset [1..int k]" and "ys = [1..int (length xs)]"
  shows "sum_list ys = sum_list xs"
proof -
  from assms(1) have "size (mset xs) = size (mset [1..int k])" by simp
  then have "length xs = k" by simp
  with assms(2) have "mset ys = mset xs" by (simp add: assms(1))
  then have "sum_mset (mset ys) = sum_mset (mset xs)" by simp
  then show ?thesis by (simp only: sum_mset_sum_list)
qed

lemma analysis_differentials_total:
  assumes sm: "stats_mapping pd"
    and keys: "set (dict_keys pd) = dp_id ` set picks"
    and dist: "distinct (map dp_id picks)"
    and out: "get_player_analysis picks pd = Inr out"
  shows "sum_list (map pa_differential out) = 0"
proof (rule sum_list_by_key_zero [where g = pa_position])
  fix pos
  let ?out = "filter (\<lambda>a. pa_position a = pos) out"
  from analysis_result [OF out] obtain ranks
    where r: "get_player_position_season_point_ranks pd = Inr ranks"
      and all2: "list_all2 (derived pd ranks) picks out"
      and dr: "map pa_draft_position_rank ?out = [1..int (length ?out)]"
    by blast
  have "pa_differential a = pa_draft_position_rank a - pa_season_end_position_rank a"
    if "a \<in> set out" for a
    using list_all2_right [OF all2 that] by (auto simp: derived_def)
  then have "map pa_differential ?out
      = map (\<lambda>a. pa_draft_position_rank a - pa_season_end_position_rank a) ?out"
    by (intro map_cong) auto
  then have "sum_list (map pa_differential ?out)
      = sum_list (map pa_draft_position_rank ?out)
        - sum_list (map pa_season_end_position_rank ?out)"
    by (simp only: sum_list_subtractf)
  moreover have "sum_list (map pa_draft_position_rank ?out)
      = sum_list (map pa_season_end_position_rank ?out)"
    by (rule sum_upto_eq_mset [OF season_ranks_of_analysis [OF sm keys dist r all2]])
       (simp add: dr)
  ultimately show "sum_list (map pa_differential ?out) = 0" by simp
qed

section \<open>The claims\<close>

text \<open>
  C1, as amended. For every draft_picks list and every stats mapping that covers all
  drafted ids and whose positions are all among QB, RB, WR, TE, K and DEF,
  \<open>get_player_analysis\<close> returns a list as long as the draft; its i-th element has the id,
  team_name, first_name, last_name and overall_pick of the i-th pick, the position and
  season_points that the stats hold under that id, the season-end rank that
  \<open>_get_player_position_season_point_ranks\<close> gives that id, and a differential that is
  exactly its draft_position_rank minus its season_end_position_rank.
\<close>

theorem get_player_analysis_elementwise:
  assumes "stats_mapping pd" and "known_positions pd" and "covers pd picks"
  shows "\<exists>out ranks.
           get_player_analysis picks pd = Inr out \<and>
           get_player_position_season_point_ranks pd = Inr ranks \<and>
           length out = length picks \<and>
           (\<forall>i<length picks.
              pa_id (out ! i) = dp_id (picks ! i) \<and>
              pa_team_name (out ! i) = dp_team_name (picks ! i) \<and>
              pa_first_name (out ! i) = dp_first_name (picks ! i) \<and>
              pa_last_name (out ! i) = dp_last_name (picks ! i) \<and>
              pa_overall_pick (out ! i) = dp_overall_pick (picks ! i) \<and>
              (\<exists>stats. dict_get pd (dp_id (picks ! i)) = Inr stats \<and>
                 pa_position (out ! i) = yp_position stats \<and>
                 pa_season_points (out ! i) = yp_season_points stats) \<and>
              dict_get ranks (dp_id (picks ! i)) = Inr (pa_season_end_position_rank (out ! i)) \<and>
              pa_differential (out ! i)
                = pa_draft_position_rank (out ! i) - pa_season_end_position_rank (out ! i))"
proof -
  from analysis_returns [OF assms] obtain out
    where out: "get_player_analysis picks pd = Inr out" ..
  from analysis_result [OF out] obtain ranks
    where r: "get_player_position_season_point_ranks pd = Inr ranks"
      and all2: "list_all2 (derived pd ranks) picks out" by blast
  from all2 have len: "length out = length picks"
    by (simp add: list_all2_lengthD)
  have "derived pd ranks (picks ! i) (out ! i)" if "i < length picks" for i
    using all2 that by (rule list_all2_nthD)
  then have "\<forall>i<length picks.
              pa_id (out ! i) = dp_id (picks ! i) \<and>
              pa_team_name (out ! i) = dp_team_name (picks ! i) \<and>
              pa_first_name (out ! i) = dp_first_name (picks ! i) \<and>
              pa_last_name (out ! i) = dp_last_name (picks ! i) \<and>
              pa_overall_pick (out ! i) = dp_overall_pick (picks ! i) \<and>
              (\<exists>stats. dict_get pd (dp_id (picks ! i)) = Inr stats \<and>
                 pa_position (out ! i) = yp_position stats \<and>
                 pa_season_points (out ! i) = yp_season_points stats) \<and>
              dict_get ranks (dp_id (picks ! i)) = Inr (pa_season_end_position_rank (out ! i)) \<and>
              pa_differential (out ! i)
                = pa_draft_position_rank (out ! i) - pa_season_end_position_rank (out ! i)"
    by (intro allI impI derived_fields)
  with out r len show ?thesis by blast
qed

theorem get_player_analysis_elementwise_witness:
  "stats_mapping example_stats \<and> known_positions example_stats \<and>
   covers example_stats example_draft \<and>
   (\<exists>out. get_player_analysis example_draft example_stats = Inr out \<and>
      length out = length example_draft \<and>
      pa_id (out ! 1) = dp_id (example_draft ! 1) \<and>
      pa_differential (out ! 1)
        = pa_draft_position_rank (out ! 1) - pa_season_end_position_rank (out ! 1))"
proof -
  have "1 < length example_draft" by (simp add: example_draft_def)
  with get_player_analysis_elementwise
         [OF example_stats_mapping example_known_positions example_covers]
  have "\<exists>out. get_player_analysis example_draft example_stats = Inr out \<and>
      length out = length example_draft \<and>
      pa_id (out ! 1) = dp_id (example_draft ! 1) \<and>
      pa_differential (out ! 1)
        = pa_draft_position_rank (out ! 1) - pa_season_end_position_rank (out ! 1)"
    by blast
  with example_stats_mapping example_known_positions example_covers show ?thesis by blast
qed

text \<open>
  C1 as it is stated, for every covering stats mapping, fails: a stats mapping that holds
  a linebacker covers the draft of that linebacker, and \<open>get_player_analysis\<close> raises
  KeyError for the position instead of returning a list.
\<close>

theorem get_player_analysis_unknown_position_counterexample:
  "stats_mapping lb_stats \<and> covers lb_stats lb_draft \<and>
   get_player_analysis lb_draft lb_stats = Inl (KeyError ''LB'')"
  by (simp add: stats_mapping_def covers_def lb_stats_def lb_draft_def run_defs)

text \<open>
  C2, as amended. For every stats mapping whose positions are all among QB, RB, WR, TE, K
  and DEF, \<open>_get_player_position_season_point_ranks\<close> returns ranks such that, for each
  position, the multiset of the ranks of the players of that position is exactly
  1, ..., k, with k the number of players of that position in the stats mapping; and,
  when no season_points of the mapping is a NaN, the ranks go by descending
  season_points: of two players of one position, the one with strictly more
  season_points has the strictly smaller rank.
\<close>

theorem season_end_ranks:
  assumes sm: "stats_mapping pd" and kp: "known_positions pd"
  shows "\<exists>ranks. get_player_position_season_point_ranks pd = Inr ranks \<and>
     (\<forall>pos. mset (map (\<lambda>v. dict_get ranks (yp_id v))
                 (filter (\<lambda>v. yp_position v = pos) (dict_values pd)))
           = mset (map Inr [1..int (length (filter (\<lambda>v. yp_position v = pos) (dict_values pd)))])) \<and>
     (no_nan pd \<longrightarrow>
        (\<forall>p\<in>set (dict_values pd). \<forall>q\<in>set (dict_values pd).
           yp_position p = yp_position q \<and> py_lt (yp_season_points q) (yp_season_points p) \<longrightarrow>
           (\<exists>rp rq. dict_get ranks (yp_id p) = Inr rp \<and> dict_get ranks (yp_id q) = Inr rq \<and>
              rp < rq)))"
proof -
  from ranks_returned [OF kp] obtain ranks
    where r: "get_player_position_season_point_ranks pd = Inr ranks" ..
  let ?g = "\<lambda>v. dict_get ranks (yp_id v)"
  have perm: "mset (map ?g (filter (\<lambda>v. yp_position v = pos) (dict_values pd)))
           = mset (map Inr [1..int (length (filter (\<lambda>v. yp_position v = pos) (dict_values pd)))])" for pos
    by (rule ranks_permutation [OF sm kp r])
  have desc: "\<exists>rp rq. ?g p = Inr rp \<and> ?g q = Inr rq \<and> rp < rq"
    if nn: "no_nan pd"
      and p: "p \<in> set (dict_values pd)" and q: "q \<in> set (dict_values pd)"
      and same: "yp_position p = yp_position q"
      and less: "py_lt (yp_season_points q) (yp_season_points p)" for p q
  proof -
    define fs where "fs = filter (\<lambda>v. yp_position v = yp_position p) (players_sorted pd)"
    define n where "n = length (filter (\<lambda>v. yp_position v = yp_position p) (dict_values pd))"
    have len: "length fs = n"
      by (simp add: fs_def n_def filter_sorted_length)
    have rk: "map ?g fs = map Inr [1..int n]"
      unfolding fs_def n_def by (rule ranks_by_position [OF sm kp r])
    have nth_rank: "?g (fs ! i) = Inr (1 + int i)" if "i < n" for i
    proof -
      have "map ?g fs ! i = map Inr [1..int n] ! i" by (simp only: rk)
      with that len show ?thesis by (simp add: nth_upto)
    qed
    have sorted_fs:
      "sorted_wrt (\<lambda>a b. ord_key (yp_season_points b) \<le> ord_key (yp_season_points a)) fs"
      unfolding fs_def by (rule sorted_wrt_filter [OF players_sorted_descending [OF nn]])
    from nn p q have "yp_season_points p \<noteq> NaN" "yp_season_points q \<noteq> NaN"
      by (simp_all add: no_nan_def)
    with less have strict: "ord_key (yp_season_points q) < ord_key (yp_season_points p)"
      by (simp add: py_lt_ord)
    from p have "p \<in> set fs" by (simp add: fs_def set_players_sorted)
    then obtain i where i: "i < n" "fs ! i = p" using len by (auto simp: in_set_conv_nth)
    from q same have "q \<in> set fs" by (simp add: fs_def set_players_sorted)
    then obtain j where j: "j < n" "fs ! j = q" using len by (auto simp: in_set_conv_nth)
    have "i < j"
    proof (rule ccontr)
      assume "\<not> i < j"
      then consider "i = j" | "j < i" by linarith
      then show False
      proof cases
        case 1
        with i j strict show False by simp
      next
        case 2
        from sorted_wrt_nth_less [OF sorted_fs 2] i len
        have "ord_key (yp_season_points (fs ! i)) \<le> ord_key (yp_season_points (fs ! j))"
          by simp
        with i j strict show False by simp
      qed
    qed
    with nth_rank [OF i(1)] nth_rank [OF j(1)] i j show ?thesis by auto
  qed
  from r perm desc show ?thesis by blast
qed

theorem season_end_ranks_witness:
  "stats_mapping example_stats \<and> known_positions example_stats \<and> no_nan example_stats \<and>
   (\<exists>ranks. get_player_position_season_point_ranks example_stats = Inr ranks \<and>
      mset (map (\<lambda>v. dict_get ranks (yp_id v))
             (filter (\<lambda>v. yp_position v = ''QB'') (dict_values example_stats)))
        = mset (map Inr [1..2]) \<and>
      (\<exists>rp rq. dict_get ranks ''2'' = Inr rp \<and> dict_get ranks ''1'' = Inr rq \<and> rp < rq))"
proof -
  have len: "int (length (filter (\<lambda>v. yp_position v = ''QB'') (dict_values example_stats))) = 2"
    by (simp add: example_stats_def dict_values_def)
  have nn: "no_nan example_stats"
    by (simp add: no_nan_def example_stats_def dict_values_def)
  define p where "p = snd (example_stats ! 1)"
  define q where "q = snd (example_stats ! 0)"
  have pq: "p \<in> set (dict_values example_stats)" "q \<in> set (dict_values example_stats)"
    "yp_position p = yp_position q" "py_lt (yp_season_points q) (yp_season_points p)"
    "yp_id p = ''2''" "yp_id q = ''1''"
    by (simp_all add: p_def q_def example_stats_def dict_values_def)
  from season_end_ranks [OF example_stats_mapping example_known_positions] obtain ranks where
    r: "get_player_position_season_point_ranks example_stats = Inr ranks"
    and perm: "\<And>pos. mset (map (\<lambda>v. dict_get ranks (yp_id v))
                 (filter (\<lambda>v. yp_position v = pos) (dict_values example_stats)))
           = mset (map Inr [1..int (length (filter (\<lambda>v. yp_position v = pos)
                 (dict_values example_stats)))])"
    and desc: "no_nan example_stats \<longrightarrow>
        (\<forall>p\<in>set (dict_values example_stats). \<forall>q\<in>set (dict_values example_stats).
           yp_position p = yp_position q \<and> py_lt (yp_season_points q) (yp_season_points p) \<longrightarrow>
           (\<exists>rp rq. dict_get ranks (yp_id p) = Inr rp \<and> dict_get ranks (yp_id q) = Inr rq \<and>
              rp < rq))"
    by blast
  from desc nn pq have "\<exists>rp rq. dict_get ranks ''2'' = Inr rp \<and> dict_get ranks ''1'' = Inr rq \<and> rp < rq"
    by metis
  moreover from perm [of "''QB''"] len
  have "mset (map (\<lambda>v. dict_get ranks (yp_id v))
             (filter (\<lambda>v. yp_position v = ''QB'') (dict_values example_stats)))
        = mset (map Inr [1..2])" by simp
  ultimately show ?thesis
    using example_stats_mapping example_known_positions nn r by blast
qed

text \<open>
  C2 as it is stated fails in its second half. The three quarterbacks of \<open>nan_stats\<close>
  have 1, NaN and 2 season_points. No comparison with the NaN is true, so the reversed
  list is one nondecreasing run for \<open>list.sort\<close>, \<open>sorted\<close> returns the players in their
  input order, and the player with 2 points gets rank 3 while the player with 1 point
  gets rank 1.
\<close>

theorem season_end_ranks_nan_counterexample:
  "stats_mapping nan_stats \<and> known_positions nan_stats \<and>
   yp_position (snd (nan_stats ! 0)) = yp_position (snd (nan_stats ! 2)) \<and>
   py_lt (yp_season_points (snd (nan_stats ! 0))) (yp_season_points (snd (nan_stats ! 2))) \<and>
   yp_id (snd (nan_stats ! 0)) = ''1'' \<and> yp_id (snd (nan_stats ! 2)) = ''3'' \<and>
   get_player_position_season_point_ranks nan_stats = Inr [(''1'', 1), (''2'', 2), (''3'', 3)]"
  by (simp add: stats_mapping_def known_positions_def known_position_def nan_stats_def run_defs)

text \<open>
  C3, as amended. For every draft_picks list and every covering stats mapping whose
  positions are all among QB, RB, WR, TE, K and DEF, and for each position: the analyses
  of that position are, in order, those of the picks drafted at that position, and their
  draft_position_rank values are 1, ..., m in that order (the j-th drafted player of the
  position gets rank j), m being the number of picks drafted at that position; so the
  multiset of these ranks is exactly 1, ..., m.
\<close>

theorem draft_position_ranks:
  assumes "stats_mapping pd" and "known_positions pd" and "covers pd picks"
  shows "\<exists>out. get_player_analysis picks pd = Inr out \<and>
           (\<forall>pos.
              map pa_id (filter (\<lambda>a. pa_position a = pos) out)
                = map dp_id (filter (\<lambda>pick. pick_position pd pick = Some pos) picks) \<and>
              map pa_draft_position_rank (filter (\<lambda>a. pa_position a = pos) out)
                = [1..int (length (filter (\<lambda>pick. pick_position pd pick = Some pos) picks))] \<and>
              mset (map pa_draft_position_rank (filter (\<lambda>a. pa_position a = pos) out))
                = mset [1..int (length (filter (\<lambda>pick. pick_position pd pick = Some pos) picks))])"
proof -
  from analysis_returns [OF assms] obtain out
    where out: "get_player_analysis picks pd = Inr out" ..
  from analysis_result [OF out] obtain ranks
    where all2: "list_all2 (derived pd ranks) picks out"
      and dr: "\<And>pos. map pa_draft_position_rank (filter (\<lambda>a. pa_position a = pos) out)
                  = [1..int (length (filter (\<lambda>a. pa_position a = pos) out))]"
    by blast
  have "map pa_id (filter (\<lambda>a. pa_position a = pos) out)
          = map dp_id (filter (\<lambda>pick. pick_position pd pick = Some pos) picks) \<and>
        map pa_draft_position_rank (filter (\<lambda>a. pa_position a = pos) out)
          = [1..int (length (filter (\<lambda>pick. pick_position pd pick = Some pos) picks))] \<and>
        mset (map pa_draft_position_rank (filter (\<lambda>a. pa_position a = pos) out))
          = mset [1..int (length (filter (\<lambda>pick. pick_position pd pick = Some pos) picks))]"
    for pos
  proof -
    let ?picks = "filter (\<lambda>pick. pick_position pd pick = Some pos) picks"
    let ?out = "filter (\<lambda>a. pa_position a = pos) out"
    have f: "list_all2 (derived pd ranks) ?picks ?out"
      by (rule drafted_at_position [OF all2])
    then have len: "length ?out = length ?picks"
      by (simp add: list_all2_lengthD)
    have ids: "map dp_id ?picks = map pa_id ?out"
      by (rule list_all2_map_eq [OF f]) (simp add: derived_def)
    from dr [of pos] len have "map pa_draft_position_rank ?out = [1..int (length ?picks)]"
      by simp
    with ids show ?thesis by simp
  qed
  with out show ?thesis by blast
qed

theorem draft_position_ranks_witness:
  "stats_mapping example_stats \<and> known_positions example_stats \<and>
   covers example_stats example_draft \<and>
   (\<exists>out. get_player_analysis example_draft example_stats = Inr out \<and>
      map pa_id (filter (\<lambda>a. pa_position a = ''QB'') out) = [''1'', ''2''] \<and>
      map pa_draft_position_rank (filter (\<lambda>a. pa_position a = ''QB'') out) = [1, 2])"
proof -
  have "filter (\<lambda>pick. pick_position example_stats pick = Some ''QB'') example_draft
          = take 2 example_draft"
    by (simp add: pick_position_def example_stats_def example_draft_def dict_get_def)
  moreover have "map dp_id (take 2 example_draft) = [''1'', ''2'']"
    by (simp add: example_draft_def)
  moreover have "[1..int (length (take 2 example_draft))] = [1, 2]"
    by (simp add: example_draft_def upto_rec1)
  ultimately
  have "\<exists>out. get_player_analysis example_draft example_stats = Inr out \<and>
      map pa_id (filter (\<lambda>a. pa_position a = ''QB'') out) = [''1'', ''2''] \<and>
      map pa_draft_position_rank (filter (\<lambda>a. pa_position a = ''QB'') out) = [1, 2]"
    using draft_position_ranks [OF example_stats_mapping example_known_positions example_covers]
    by metis
  with example_stats_mapping example_known_positions example_covers show ?thesis by blast
qed

text \<open>
  C3 as it is stated, for every covering stats mapping, fails: with a defensive back in
  the stats, the quarterback drafted first gets no draft rank at all, since
  \<open>get_player_analysis\<close> raises KeyError before it reads the first pick.
\<close>

theorem draft_position_ranks_unknown_position_counterexample:
  "stats_mapping db_stats \<and> covers db_stats db_draft \<and>
   pick_position db_stats (db_draft ! 0) = Some ''QB'' \<and>
   get_player_analysis db_draft db_stats = Inl (KeyError ''DB'')"
  by (simp add: stats_mapping_def covers_def pick_position_def db_stats_def db_draft_def run_defs)

text \<open>
  C4. If the stats mapping lacks the id of some draft pick, \<open>get_player_analysis\<close> ends
  in a KeyError: it returns no list, so no PlayerAnalysis with default values stands in
  for that pick.
\<close>

theorem missing_stats_is_fatal:
  assumes "\<not> covers pd picks"
  shows "\<exists>k. get_player_analysis picks pd = Inl (KeyError k)"
proof (cases "get_player_position_season_point_ranks pd")
  case (Inl e)
  then obtain k where "e = KeyError k"
    unfolding get_player_position_season_point_ranks_def by (rule season_rank_loop_raises)
  with Inl show ?thesis by (simp add: get_player_analysis_def)
next
  case (Inr ranks)
  from assms obtain pick where "pick \<in> set picks" "dp_id pick \<notin> fst ` set pd"
    by (auto simp: covers_def dict_keys_def)
  then have "\<exists>pick\<in>set picks. map_of pd (dp_id pick) = None"
    by (auto simp: map_of_eq_None_iff)
  from analysis_loop_fails [OF this] Inr show ?thesis
    by (simp add: get_player_analysis_def)
qed

theorem missing_stats_is_fatal_witness:
  "\<not> covers example_stats uncovered_draft \<and>
   (\<exists>k. get_player_analysis uncovered_draft example_stats = Inl (KeyError k))"
proof -
  have "\<not> covers example_stats uncovered_draft"
    by (simp add: covers_def example_stats_def uncovered_draft_def dict_keys_def)
  with missing_stats_is_fatal [of example_stats uncovered_draft] show ?thesis by blast
qed

text \<open>
  C5. For every list of PlayerAnalysis, the mapping that \<open>get_players_by_team\<close> returns
  has the team names of the input as its keys, each once; the list of a team is the
  stable sort by overall_pick of the input players with that team_name, so it holds
  exactly those players, each as often as the input does, in ascending overall_pick; and
  the lists of all teams together hold exactly the input players, each as often as the
  input does.
\<close>

theorem players_by_team_partition:
  "set (dict_keys (dd_items (get_players_by_team players))) = pa_team_name ` set players \<and>
   distinct (dict_keys (dd_items (get_players_by_team players))) \<and>
   dd_peek (get_players_by_team players) t
     = sort_key pa_overall_pick (filter (\<lambda>p. pa_team_name p = t) players) \<and>
   mset (dd_peek (get_players_by_team players) t)
     = filter_mset (\<lambda>p. pa_team_name p = t) (mset players) \<and>
   sorted (map pa_overall_pick (dd_peek (get_players_by_team players) t)) \<and>
   mset (concat (dict_values (dd_items (get_players_by_team players)))) = mset players"
proof -
  have "set (dict_keys (dd_items (get_players_by_team players))) = pa_team_name ` set players"
    by (simp only: dom_map_of_keys [symmetric] players_by_team_keys)
  moreover have "mset (dd_peek (get_players_by_team players) t)
     = filter_mset (\<lambda>p. pa_team_name p = t) (mset players)"
    by (simp add: players_by_team_peek)
  moreover have "sorted (map pa_overall_pick (dd_peek (get_players_by_team players) t))"
    by (simp add: players_by_team_peek)
  ultimately show ?thesis
    using players_by_team_distinct players_by_team_peek players_by_team_cover by blast
qed

text \<open>
  C6. For every list of PlayerAnalysis and every team_name that occurs in it, the value
  that \<open>get_team_differentials\<close> holds for that team is the sum of the differential
  fields of exactly the players with that team_name.
\<close>

theorem team_differential_is_sum:
  assumes "t \<in> pa_team_name ` set players"
  shows "dict_get (dd_items (get_team_differentials players)) t
           = Inr (sum_list (map pa_differential (filter (\<lambda>p. pa_team_name p = t) players)))"
proof -
  from assms have "t \<in> dom (map_of (dd_items (get_team_differentials players)))"
    by (simp only: team_differentials_keys)
  from dd_stored [OF this] show ?thesis by (simp only: team_differentials_peek)
qed

theorem team_differential_is_sum_witness:
  "''A'' \<in> pa_team_name ` set example_players \<and>
   dict_get (dd_items (get_team_differentials example_players)) ''A'' = Inr (- 1)"
proof -
  have a: "''A'' \<in> pa_team_name ` set example_players"
    by (simp add: example_players_def)
  have "sum_list (map pa_differential (filter (\<lambda>p. pa_team_name p = ''A'') example_players)) = - 1"
    by (simp add: example_players_def)
  with team_differential_is_sum [OF a] a show ?thesis by simp
qed

text \<open>
  C7. If some record of the stats mapping has a position outside QB, RB, WR, TE, K and
  DEF, the rank computation ends in a KeyError for such a position, and
  \<open>get_player_analysis\<close> on that stats mapping ends in the same error, whatever the draft.
\<close>

theorem unknown_position_is_fatal:
  assumes "\<not> known_positions pd"
  shows "\<exists>k. \<not> known_position k \<and>
           get_player_position_season_point_ranks pd = Inl (KeyError k) \<and>
           get_player_analysis picks pd = Inl (KeyError k)"
proof -
  from assms obtain v where "v \<in> set (players_sorted pd)" "\<not> known_position (yp_position v)"
    by (auto simp: known_positions_def set_players_sorted)
  then have "\<exists>p\<in>set (players_sorted pd). map_of curr_position_ranks (yp_position p) = None"
    by (auto simp: map_of_curr_position_ranks)
  from season_rank_loop_fails [OF this] obtain k where
    k: "map_of curr_position_ranks k = None"
    and f: "get_player_position_season_point_ranks pd = Inl (KeyError k)"
    unfolding get_player_position_season_point_ranks_def by blast
  from k have "\<not> known_position k"
    by (simp add: map_of_curr_position_ranks split: if_splits)
  with f show ?thesis by (auto simp: get_player_analysis_def)
qed

theorem unknown_position_is_fatal_witness:
  "\<not> known_positions lb_stats \<and>
   (\<exists>k. \<not> known_position k \<and>
      get_player_position_season_point_ranks lb_stats = Inl (KeyError k) \<and>
      get_player_analysis example_draft lb_stats = Inl (KeyError k))"
proof -
  have "\<not> known_positions lb_stats"
    by (simp add: known_positions_def known_position_def lb_stats_def run_defs)
  with unknown_position_is_fatal [of lb_stats example_draft] show ?thesis by blast
qed

text \<open>
  C8. When the keys of the stats mapping are exactly the drafted player ids and each
  drafted id occurs in exactly one pick, the values that \<open>get_team_differentials\<close>
  returns for the analysis of that draft sum to 0 over all teams: whenever
  \<open>get_player_analysis\<close> returns (as it does when every position is recognised), the
  draft ranks and the season-end ranks of each position are both 1, ..., k.
\<close>

theorem team_differentials_sum_to_zero:
  assumes "stats_mapping pd"
    and "set (dict_keys pd) = dp_id ` set picks"
    and "distinct (map dp_id picks)"
  shows "(known_positions pd \<longrightarrow> (\<exists>out. get_player_analysis picks pd = Inr out)) \<and>
         (\<forall>out. get_player_analysis picks pd = Inr out \<longrightarrow>
            sum_list (dict_values (dd_items (get_team_differentials out))) = 0)"
proof (intro conjI impI allI)
  assume "known_positions pd"
  moreover have "covers pd picks" using assms(2) by (simp add: covers_def)
  ultimately show "\<exists>out. get_player_analysis picks pd = Inr out"
    using assms(1) by (intro analysis_returns)
next
  fix out
  assume "get_player_analysis picks pd = Inr out"
  from analysis_differentials_total [OF assms this]
  show "sum_list (dict_values (dd_items (get_team_differentials out))) = 0"
    by (simp add: dict_values_def team_differentials_total)
qed

theorem team_differentials_sum_to_zero_witness:
  "stats_mapping example_stats \<and>
   set (dict_keys example_stats) = dp_id ` set example_draft \<and>
   distinct (map dp_id example_draft) \<and>
   get_player_analysis example_draft example_stats = Inr example_players \<and>
   sum_list (dict_values (dd_items (get_team_differentials example_players))) = 0"
proof -
  have keys: "set (dict_keys example_stats) = dp_id ` set example_draft"
    by (simp add: example_stats_def example_draft_def dict_keys_def)
  have dist: "distinct (map dp_id example_draft)"
    by (simp add: example_draft_def)
  from team_differentials_sum_to_zero [OF example_stats_mapping keys dist] example_analysis
  have "sum_list (dict_values (dd_items (get_team_differentials example_players))) = 0"
    by blast
  with example_stats_mapping keys dist example_analysis show ?thesis by blast
qed

text \<open>
  C9, as amended. For every YahooPlayerData value p whose season_points is not a NaN,
  \<open>YahooPlayerData.from_json_string(p.to_json())\<close> returns an object that is equal to p
  under \<open>==\<close>, with the id, the position and the season_points of p.
\<close>

theorem json_round_trip:
  assumes "yp_season_points p \<noteq> NaN"
  shows "\<exists>q. from_json_string (to_json p) = Returns q \<and> YahooPlayerData_eq q p \<and>
           yp_id q = yp_id p \<and> yp_position q = yp_position p \<and>
           yp_season_points q = yp_season_points p"
proof -
  have "from_json_string (to_json p)
      = Returns \<lparr>yp_id = yp_id p, yp_position = yp_position p,
                 yp_season_points = yp_season_points p\<rparr>"
    by (simp add: from_json_string_def to_json_def instance_dict_def dict_get_def)
  moreover have "py_eq (yp_season_points p) (yp_season_points p)"
    using assms by (cases "yp_season_points p") simp_all
  ultimately show ?thesis by (simp add: YahooPlayerData_eq_def)
qed

theorem json_round_trip_witness:
  "yp_season_points example_player \<noteq> NaN \<and>
   (\<exists>q. from_json_string (to_json example_player) = Returns q \<and>
      YahooPlayerData_eq q example_player)"
proof -
  have "yp_season_points example_player \<noteq> NaN" by (simp add: example_player_def)
  with json_round_trip [of example_player] show ?thesis by blast
qed

text \<open>
  C9 as it is stated, for every value, fails: a NaN is written as \<open>NaN\<close> and read back as
  a NaN, and the object returned has the fields of the one written, but \<open>==\<close> of a NaN
  with a NaN is false, so the two objects are not equal.
\<close>

theorem json_round_trip_nan_counterexample:
  "from_json_string (to_json nan_player) = Returns nan_player \<and>
   \<not> YahooPlayerData_eq nan_player nan_player"
  by (simp add: from_json_string_def to_json_def instance_dict_def dict_get_def
        nan_player_def YahooPlayerData_eq_def)

text \<open>
  C10. For a team name that no player has, a read of the mapping returned by
  \<open>get_team_differentials\<close> yields 0 and a read of the mapping returned by
  \<open>get_players_by_team\<close> yields the empty list: both are defaultdicts, whose read returns
  the factory's value where a read of their stored entries as a plain dict would raise
  KeyError.
\<close>

theorem absent_team_reads_default:
  assumes "t \<notin> pa_team_name ` set players"
  shows "fst (dd_getitem (get_team_differentials players) t) = 0 \<and>
         fst (dd_getitem (get_players_by_team players) t) = [] \<and>
         dict_get (dd_items (get_team_differentials players)) t = Inl (KeyError t) \<and>
         dict_get (dd_items (get_players_by_team players)) t = Inl (KeyError t)"
proof -
  from assms have "t \<notin> dom (map_of (dd_items (get_team_differentials players)))"
    by (simp only: team_differentials_keys) simp
  from dd_not_stored [OF this]
  have 1: "dict_get (dd_items (get_team_differentials players)) t = Inl (KeyError t)"
    and 2: "fst (dd_getitem (get_team_differentials players) t) = 0"
    by (simp_all add: dd_peek_def [symmetric] get_team_differentials_def
          differential_loop_factory dd_new_def)
  from assms have "t \<notin> dom (map_of (dd_items (get_players_by_team players)))"
    by (simp only: players_by_team_keys) simp
  from dd_not_stored [OF this]
  have 3: "dict_get (dd_items (get_players_by_team players)) t = Inl (KeyError t)"
    and 4: "fst (dd_getitem (get_players_by_team players) t) = []"
    by (simp_all add: dd_peek_def [symmetric] get_players_by_team_def Let_def
          sort_loop_factory group_loop_factory dd_new_def)
  from 1 2 3 4 show ?thesis by simp
qed

theorem absent_team_reads_default_witness:
  "''C'' \<notin> pa_team_name ` set example_players \<and>
   fst (dd_getitem (get_team_differentials example_players) ''C'') = 0 \<and>
   fst (dd_getitem (get_players_by_team example_players) ''C'') = []"
proof -
  have c: "''C'' \<notin> pa_team_name ` set example_players"
    by (simp add: example_players_def)
  with absent_team_reads_default [OF c] show ?thesis by simp
qed

end
